theory Spec2Isabelle
  imports Main "HOL-Library.AList" "HOL-Library.Sublist"
begin

section \<open>JavaScript values\<close>

text \<open>
  The payloads that \<^verbatim>\<open>HttpHepler\<close> and \<^verbatim>\<open>HttpFetchService\<close> handle are JSON-like
  values. An object is the list of its own enumerable properties in enumeration order,
  the order in which \<^verbatim>\<open>for (const key in target)\<close> visits them; an object has no key
  twice (\<open>well_formed\<close> below). Numbers are integers here: the code compares them with nothing
  and only tests them for truthiness.
\<close>

datatype jsval =
    JUndefined
  | JNull
  | JBool bool
  | JNum int
  | JStr string
  | JArr "jsval list"
  | JObj "(string \<times> jsval) list"

type_synonym jsobject = "(string \<times> jsval) list"

text \<open>\<^verbatim>\<open>target[key]\<close>: the value of a property, \<^verbatim>\<open>undefined\<close> when the object has none.\<close>

definition js_get :: "jsobject \<Rightarrow> string \<Rightarrow> jsval" where
  "js_get ps k = (case map_of ps k of None \<Rightarrow> JUndefined | Some v \<Rightarrow> v)"

text \<open>
  \<^verbatim>\<open>target[key] = v\<close>: an existing property keeps its place in the enumeration order,
  a new one is enumerated last (as JavaScript does for every key that is not an array
  index). \<^verbatim>\<open>delete target[key]\<close> removes the property.
\<close>

definition js_set :: "string \<Rightarrow> jsval \<Rightarrow> jsobject \<Rightarrow> jsobject" where
  "js_set k v ps = AList.update k v ps"

definition js_delete :: "string \<Rightarrow> jsobject \<Rightarrow> jsobject" where
  "js_delete k ps = AList.delete k ps"

text \<open>\<^verbatim>\<open>typeof v === 'object'\<close> holds of objects, arrays and \<^verbatim>\<open>null\<close>.\<close>

fun typeof_object :: "jsval \<Rightarrow> bool" where
  "typeof_object JNull = True"
| "typeof_object (JArr xs) = True"
| "typeof_object (JObj ps) = True"
| "typeof_object v = False"

text \<open>Truthiness, as \<^verbatim>\<open>if (v)\<close>, \<^verbatim>\<open>!v\<close> and \<^verbatim>\<open>v || w\<close> test it.\<close>

fun truthy :: "jsval \<Rightarrow> bool" where
  "truthy JUndefined = False"
| "truthy JNull = False"
| "truthy (JBool b) = b"
| "truthy (JNum n) = (n \<noteq> 0)"
| "truthy (JStr s) = (s \<noteq> [])"
| "truthy (JArr xs) = True"
| "truthy (JObj ps) = True"

definition js_or :: "jsval \<Rightarrow> jsval \<Rightarrow> jsval" where
  "js_or v w = (if truthy v then v else w)"

text \<open>
  Well-formed values: no object lists a key twice. \<open>all_keys P v\<close>: every key of every
  object inside \<open>v\<close>, at any nesting depth, satisfies \<open>P\<close>.
\<close>

fun well_formed :: "jsval \<Rightarrow> bool" where
  "well_formed (JArr xs) = list_all well_formed xs"
| "well_formed (JObj ps) = (distinct (map fst ps) \<and> list_all (\<lambda>p. well_formed (snd p)) ps)"
| "well_formed v = True"

fun all_keys :: "(string \<Rightarrow> bool) \<Rightarrow> jsval \<Rightarrow> bool" where
  "all_keys P (JArr xs) = list_all (all_keys P) xs"
| "all_keys P (JObj ps) = list_all (\<lambda>p. P (fst p) \<and> all_keys P (snd p)) ps"
| "all_keys P v = True"

text \<open>
  Deep equality, as a test compares a result with a snapshot: scalars by value, arrays
  element by element, objects key by key whatever the order of their keys.
\<close>

fun deep_eq :: "jsval \<Rightarrow> jsval \<Rightarrow> bool" where
  "deep_eq (JArr xs) y = (case y of JArr ys \<Rightarrow> list_all2 deep_eq xs ys | _ \<Rightarrow> False)"
| "deep_eq (JObj ps) y =
     (case y of
        JObj qs \<Rightarrow>
          list_all (\<lambda>p. case map_of qs (fst p) of None \<Rightarrow> False | Some w \<Rightarrow> deep_eq (snd p) w) ps
          \<and> list_all (\<lambda>q. map_of ps (fst q) \<noteq> None) qs
      | _ \<Rightarrow> False)"
| "deep_eq v y = (v = y)"

section \<open>Objects by reference\<close>

text \<open>
  The transformers mutate objects in place. Where it matters which object is written,
  a value is a scalar or a reference into a store of objects and arrays; a reference is
  the position of a node in the store, and allocation appends a node.
\<close>

type_synonym addr = nat

datatype hval =
    HUndefined
  | HNull
  | HBool bool
  | HNum int
  | HStr string
  | HRef addr

datatype hnode =
    HObject "(string \<times> hval) list"
  | HArray "hval list"

type_synonym store = "hnode list"

section \<open>The lodash functions the code calls\<close>

text \<open>
  \<^verbatim>\<open>_.camelCase\<close>, \<^verbatim>\<open>_.snakeCase\<close> and \<^verbatim>\<open>_.cloneDeep\<close> belong to the lodash library, not
  to this repository, so the model takes them as parameters, and the theorems state
  what they need of them. \<open>camelCase\<close> and \<open>snakeCase\<close> map a key to a key. The one
  thing the model takes for granted is that both leave the array-index keys \<^verbatim>\<open>"0"\<close>,
  \<^verbatim>\<open>"1"\<close>, ... alone, as lodash does: these are the keys \<^verbatim>\<open>for ... in\<close> enumerates on a
  string, so a string is never rewritten. \<open>cloneDeep\<close> takes the store and a value and
  returns the store after the copy with the copy's value.
\<close>

record lodash =
  camelCase :: "string \<Rightarrow> string"
  snakeCase :: "string \<Rightarrow> string"
  cloneDeep :: "store \<Rightarrow> hval \<Rightarrow> store \<times> hval"

section \<open>http.helper.ts: the key-case transformer\<close>

text \<open>
  One iteration of the loop body, up to the recursive call:
  \<^verbatim>\<open>
      const newKey = _.camelCase(key);
      if (key !== newKey) {
        target[newKey] = target[key];
        delete target[key];
      }
  \<close>
\<close>

definition rename_key :: "(string \<Rightarrow> string) \<Rightarrow> string \<Rightarrow> jsobject \<Rightarrow> jsobject" where
  "rename_key f key ps =
     (let newKey = f key in
      if key \<noteq> newKey then js_delete key (js_set newKey (js_get ps key) ps) else ps)"

text \<open>
  \<^verbatim>\<open>_snakeToHump\<close> and \<^verbatim>\<open>_humpToSnake\<close> are the same text but for the lodash function
  they call, so their body is modelled once, with that function as \<open>f\<close>. Both mutate
  \<open>target\<close> in place and recurse for the effect only, so \<open>rewrite f target depth\<close> is
  the state of \<open>target\<close> when the call \<^verbatim>\<open>_snakeToHump(target, depth)\<close> is over:
  \<^verbatim>\<open>
    if (--depth < 0) { return; }
    if (_.isArray(target)) {
      target.forEach(item => HttpHepler._snakeToHump(item));
    } else {
      for (const key in target) {
        ...
        if (typeof target[newKey] === 'object') {
          HttpHepler._snakeToHump(target[newKey], depth);
        }
      }
    }
  \<close>
  The call on an array element passes no depth, so the element starts again from the
  default \<open>10\<close>. \<open>for_in f depth keys ps\<close> runs the loop over the keys still to visit,
  \<open>ps\<close> being the object as the earlier iterations left it and \<open>depth\<close> the decremented
  budget; the keys are those the object had when the loop started, and a key that is
  gone when its turn comes is skipped.
\<close>

function rewrite :: "(string \<Rightarrow> string) \<Rightarrow> jsval \<Rightarrow> int \<Rightarrow> jsval"
  and for_in :: "(string \<Rightarrow> string) \<Rightarrow> int \<Rightarrow> string list \<Rightarrow> jsobject \<Rightarrow> jsobject"
where
  "rewrite f (JArr xs) depth =
     (if depth - 1 < 0 then JArr xs else JArr (map (\<lambda>item. rewrite f item 10) xs))"
| "rewrite f (JObj ps) depth =
     (if depth - 1 < 0 then JObj ps else JObj (for_in f (depth - 1) (map fst ps) ps))"
| "rewrite f JUndefined depth = JUndefined"
| "rewrite f JNull depth = JNull"
| "rewrite f (JBool b) depth = JBool b"
| "rewrite f (JNum n) depth = JNum n"
| "rewrite f (JStr s) depth = JStr s"
| "for_in f depth [] ps = ps"
| "for_in f depth (key # keys) ps =
     (if key \<notin> fst ` set ps then for_in f depth keys ps
      else if typeof_object (js_get (rename_key f key ps) (f key))
      then for_in f depth keys
             (js_set (f key) (rewrite f (js_get (rename_key f key ps) (f key)) depth)
                (rename_key f key ps))
      else for_in f depth keys (rename_key f key ps))"
  by pat_completeness auto

text \<open>
  Termination: a walked value is never larger than it was, so the object a loop works
  on never grows, and every recursive call is on a value inside it.
\<close>

fun vsize :: "jsval \<Rightarrow> nat" where
  "vsize (JArr xs) = Suc (sum_list (map vsize xs))"
| "vsize (JObj ps) = Suc (sum_list (map (\<lambda>p. vsize (snd p)) ps))"
| "vsize v = 1"

definition osize :: "jsobject \<Rightarrow> nat" where
  "osize ps = sum_list (map (\<lambda>p. vsize (snd p)) ps)"

lemma keys_js_set: "fst ` set (js_set k v ps) = insert k (fst ` set ps)"
  unfolding js_set_def by (induction ps) auto

lemma keys_js_delete: "fst ` set (js_delete k ps) = fst ` set ps - {k}"
  unfolding js_delete_def by (induction ps) auto

lemma keys_rename_key:
  "key \<in> fst ` set ps \<Longrightarrow>
     fst ` set (rename_key f key ps) = insert (f key) (fst ` set ps - {key})"
  by (auto simp: rename_key_def Let_def keys_js_set keys_js_delete)

lemma osize_js_set_le: "osize (js_set k v ps) \<le> osize ps + vsize v"
  unfolding js_set_def by (induction ps) (auto simp: osize_def)

lemma js_get_le_osize: "k \<in> fst ` set ps \<Longrightarrow> vsize (js_get ps k) \<le> osize ps"
proof (induction ps)
  case Nil
  then show ?case by simp
next
  case (Cons p ps)
  show ?case
  proof (cases "fst p = k")
    case True
    then show ?thesis by (cases p) (simp add: osize_def js_get_def)
  next
    case False
    then have "vsize (js_get ps k) \<le> osize ps" using Cons by auto
    then show ?thesis using False by (cases p) (simp add: osize_def js_get_def)
  qed
qed

lemma osize_js_set_present:
  "k \<in> fst ` set ps \<Longrightarrow> osize (js_set k v ps) + vsize (js_get ps k) = osize ps + vsize v"
  unfolding js_set_def by (induction ps) (auto simp: osize_def js_get_def)

lemma osize_js_delete_le':
  "osize (js_delete k ps) \<le> osize ps"
  unfolding js_delete_def by (induction ps) (auto simp: osize_def)

lemma osize_js_delete_le:
  "k \<in> fst ` set ps \<Longrightarrow> osize (js_delete k ps) + vsize (js_get ps k) \<le> osize ps"
proof (induction ps)
  case Nil
  then show ?case by simp
next
  case (Cons p ps)
  show ?case
  proof (cases "fst p = k")
    case True
    then show ?thesis
      using osize_js_delete_le'[of k ps]
      by (cases p) (simp add: osize_def js_get_def js_delete_def)
  next
    case False
    then show ?thesis using Cons by (auto simp: osize_def js_get_def js_delete_def)
  qed
qed

lemma osize_rename_key_le:
  assumes "key \<in> fst ` set ps"
  shows "osize (rename_key f key ps) \<le> osize ps"
proof (cases "key = f key")
  case True
  then show ?thesis by (simp add: rename_key_def)
next
  case False
  let ?u = "js_set (f key) (js_get ps key) ps"
  have k': "key \<in> fst ` set ?u" using assms by (simp add: keys_js_set)
  have g: "js_get ?u key = js_get ps key"
    using False by (simp add: js_get_def js_set_def update_conv')
  have "osize (js_delete key ?u) + vsize (js_get ps key) \<le> osize ?u"
    using osize_js_delete_le[OF k'] g by simp
  moreover have "osize ?u \<le> osize ps + vsize (js_get ps key)" by (rule osize_js_set_le)
  ultimately show ?thesis using False by (simp add: rename_key_def Let_def)
qed

lemma rewrite_for_in_size:
  "rewrite_for_in_dom (Inl (f, v, d)) \<Longrightarrow> vsize (rewrite f v d) \<le> vsize v"
  "rewrite_for_in_dom (Inr (f, d', ks, ps)) \<Longrightarrow> osize (for_in f d' ks ps) \<le> osize ps"
proof (induction f v d and f d' ks ps rule: rewrite_for_in.pinduct)
  case (1 f xs depth)
  then show ?case
    by (auto simp: rewrite.psimps comp_def intro!: sum_list_mono)
next
  case (2 f ps depth)
  then show ?case by (auto simp: rewrite.psimps osize_def)
next
  case (9 f depth key keys ps)
  show ?case
  proof (cases "key \<in> fst ` set ps")
    case False
    then show ?thesis using 9 by (simp add: for_in.psimps)
  next
    case True
    note present = this
    let ?ps1 = "rename_key f key ps"
    have le1: "osize ?ps1 \<le> osize ps" by (rule osize_rename_key_le[OF True])
    show ?thesis
    proof (cases "typeof_object (js_get ?ps1 (f key))")
      case False
      then show ?thesis using 9(1) 9(5)[OF _ False] present le1 by (simp add: for_in.psimps)
    next
      case True
      have in1: "f key \<in> fst ` set ?ps1"
        using present by (simp add: keys_rename_key)
      have "vsize (rewrite f (js_get ?ps1 (f key)) depth) \<le> vsize (js_get ?ps1 (f key))"
        using 9(3) present True by simp
      then have "osize (js_set (f key) (rewrite f (js_get ?ps1 (f key)) depth) ?ps1) \<le> osize ?ps1"
        using osize_js_set_present[OF in1, of "rewrite f (js_get ?ps1 (f key)) depth"] by simp
      then show ?thesis using 9(1) 9(4) present True le1 by (simp add: for_in.psimps)
    qed
  qed
qed (simp_all add: rewrite.psimps for_in.psimps)

termination rewrite
proof (relation "inv_image (less_than <*lex*> less_than)
     (case_sum (\<lambda>(f, v, d). (2 * vsize v, 0))
               (\<lambda>(f, d, ks, ps). (2 * osize ps + 1, length ks)))",
     goal_cases)
  case 1
  then show ?case by (intro wf_inv_image wf_lex_prod wf_less_than)
next
  case (2 f xs depth x)
  then have "vsize x \<le> sum_list (map vsize xs)"
    by (simp add: member_le_sum_list)
  then show ?case by simp
next
  case (3 f ps depth)
  then show ?case by (simp add: osize_def)
next
  case (4 f depth key keys ps)
  then show ?case by simp
next
  case (5 f depth key keys ps)
  then have "key \<in> fst ` set ps" by simp
  then have in1: "f key \<in> fst ` set (rename_key f key ps)"
    by (simp add: keys_rename_key)
  have "vsize (js_get (rename_key f key ps) (f key)) \<le> osize (rename_key f key ps)"
    by (rule js_get_le_osize[OF in1])
  also have "\<dots> \<le> osize ps" using 5 by (simp add: osize_rename_key_le)
  finally show ?case by simp
next
  case (6 f depth key keys ps)
  then have present: "key \<in> fst ` set ps" by simp
  let ?ps1 = "rename_key f key ps"
  have in1: "f key \<in> fst ` set ?ps1"
    using present by (simp add: keys_rename_key)
  have "vsize (rewrite f (js_get ?ps1 (f key)) depth) \<le> vsize (js_get ?ps1 (f key))"
    using 6 by (simp add: rewrite_for_in_size)
  then have "osize (js_set (f key) (rewrite f (js_get ?ps1 (f key)) depth) ?ps1) \<le> osize ?ps1"
    using osize_js_set_present[OF in1, of "rewrite f (js_get ?ps1 (f key)) depth"] by simp
  also have "\<dots> \<le> osize ps" using present by (simp add: osize_rename_key_le)
  finally show ?case by (auto simp: le_less)
next
  case (7 f depth key keys ps)
  then have "osize (rename_key f key ps) \<le> osize ps" by (simp add: osize_rename_key_le)
  then show ?case by (auto simp: le_less)
qed

text \<open>
  What the private functions return: nothing (\<^verbatim>\<open>undefined\<close>) when the budget is used up on
  entry, the mutated \<open>target\<close> otherwise.
\<close>

definition priv_snakeToHump :: "lodash \<Rightarrow> jsval \<Rightarrow> int \<Rightarrow> jsval" where
  "priv_snakeToHump L target depth =
     (if depth - 1 < 0 then JUndefined else rewrite (camelCase L) target depth)"

definition priv_humpToSnake :: "lodash \<Rightarrow> jsval \<Rightarrow> int \<Rightarrow> jsval" where
  "priv_humpToSnake L target depth =
     (if depth - 1 < 0 then JUndefined else rewrite (snakeCase L) target depth)"

text \<open>
  The public entry points work on \<^verbatim>\<open>_.cloneDeep(target)\<close>. A value of type \<open>jsval\<close> is
  its own deep copy; the store model further down makes the copy explicit.
\<close>

definition snakeToHump :: "lodash \<Rightarrow> jsval \<Rightarrow> int \<Rightarrow> jsval" where
  "snakeToHump L target depth = (let temp = target in priv_snakeToHump L temp depth)"

definition humpToSnake :: "lodash \<Rightarrow> jsval \<Rightarrow> int \<Rightarrow> jsval" where
  "humpToSnake L target depth = (let temp = target in priv_humpToSnake L temp depth)"

section \<open>http.service.ts: the request pipeline\<close>

text \<open>
  \<^verbatim>\<open>ParameterStyle\<close>, \<^verbatim>\<open>RequestConfig\<close> and \<^verbatim>\<open>ResponseSchema\<close> are declared in
  \<^verbatim>\<open>http.interface.ts\<close>; their shape is read off their uses in \<^verbatim>\<open>http.service.ts\<close>.
  \<open>protocol\<close> is \<open>None\<close> when the option is not set. \<open>transport_defaults\<close> holds the
  other own properties of \<^verbatim>\<open>httpOption\<close> that the spread \<^verbatim>\<open>...this.httpOption\<close> hands to
  axios. An axios config is an object with the properties \<^verbatim>\<open>url\<close>, \<^verbatim>\<open>method\<close>,
  \<^verbatim>\<open>data\<close>, \<^verbatim>\<open>params\<close> and so on.
\<close>

datatype ParameterStyle = NONE | CAMEL_TO_SNAKE | SNAKE_TO_CAMEL

record RequestConfig =
  protocol :: "string option"
  parameterStyle :: ParameterStyle
  transport_defaults :: jsobject

record AxiosResponse =
  resp_status :: int
  resp_data :: jsval

text \<open>
  What a \<^verbatim>\<open>catch (err)\<close> reads of the thrown value: \<^verbatim>\<open>err.message\<close> and \<^verbatim>\<open>err.response\<close>,
  the latter \<open>None\<close> when the error carries no response (a network failure, or an
  exception that is not the transport's).
\<close>

record AxiosError =
  message :: string
  response :: "AxiosResponse option"

text \<open>The transport, \<^verbatim>\<open>this.httpService.axiosRef.request\<close>: the promise resolves or rejects.\<close>

datatype settled = Resolved AxiosResponse | Rejected AxiosError

type_synonym transport = "jsobject \<Rightarrow> settled"

record ResponseSchema =
  code :: jsval
  msg :: jsval
  data :: jsval
  status :: int

text \<open>
  What \<^verbatim>\<open>request\<close> throws: the exception of \<^verbatim>\<open>http.exception.ts\<close> with its \<^verbatim>\<open>msg\<close>, or
  the \<^verbatim>\<open>TypeError\<close> of the runtime for a property read of \<^verbatim>\<open>undefined\<close> or \<^verbatim>\<open>null\<close>.
\<close>

datatype exn = HttpRequestApiException string | TypeError

text \<open>
  \<^verbatim>\<open>v.k\<close> for \<^verbatim>\<open>k\<close> one of \<^verbatim>\<open>code\<close>, \<^verbatim>\<open>msg\<close>, \<^verbatim>\<open>data\<close>: the property of an object,
  \<^verbatim>\<open>undefined\<close> on a string, number, boolean or array. On \<^verbatim>\<open>undefined\<close> and \<^verbatim>\<open>null\<close>
  (\<open>nullish\<close>) the read throws, which the callers of \<open>field\<close> test first.
\<close>

definition nullish :: "jsval \<Rightarrow> bool" where
  "nullish v = (v = JUndefined \<or> v = JNull)"

fun field :: "jsval \<Rightarrow> string \<Rightarrow> jsval" where
  "field (JObj ps) k = js_get ps k"
| "field v k = JUndefined"

text \<open>The object spread \<^verbatim>\<open>{...a, ...b}\<close>: the properties of \<open>b\<close> are set on a copy of \<open>a\<close>.\<close>

definition spread :: "jsobject \<Rightarrow> jsobject \<Rightarrow> jsobject" where
  "spread a b = foldl (\<lambda>acc p. js_set (fst p) (snd p) acc) a b"

text \<open>\<^verbatim>\<open>const protocol = this.httpOption.protocol || 'http'\<close>, and lines 65 to 67.\<close>

definition protocol_of :: "RequestConfig \<Rightarrow> string" where
  "protocol_of httpOption =
     (case protocol httpOption of None \<Rightarrow> ''http'' | Some p \<Rightarrow> if p = [] then ''http'' else p)"

definition normalize_url :: "RequestConfig \<Rightarrow> string \<Rightarrow> string" where
  "normalize_url httpOption url =
     (let protocol = protocol_of httpOption in
      if \<not> prefix protocol url then protocol @ ''://'' @ url else url)"

text \<open>The \<^verbatim>\<open>switch (this.httpOption.parameterStyle)\<close> of lines 68 to 87.\<close>

definition outgoing :: "lodash \<Rightarrow> ParameterStyle \<Rightarrow> jsobject \<Rightarrow> jsobject" where
  "outgoing L style config =
     (case style of
        CAMEL_TO_SNAKE \<Rightarrow>
          (let config1 =
                 (if truthy (js_get config ''data'')
                  then js_set ''data'' (humpToSnake L (js_get config ''data'') 10) config
                  else config)
           in if truthy (js_get config1 ''params'')
              then js_set ''params'' (humpToSnake L (js_get config1 ''params'') 10) config1
              else config1)
      | SNAKE_TO_CAMEL \<Rightarrow>
          (let config1 =
                 (if truthy (js_get config ''data'')
                  then js_set ''data'' (snakeToHump L (js_get config ''data'') 10) config
                  else config)
           in if truthy (js_get config1 ''params'')
              then js_set ''params'' (snakeToHump L (js_get config1 ''params'') 10) config1
              else config1)
      | NONE \<Rightarrow> config)"

text \<open>The argument of the transport call, \<^verbatim>\<open>{...this.httpOption, ...config, url}\<close>.\<close>

definition axios_request_config :: "lodash \<Rightarrow> RequestConfig \<Rightarrow> string \<Rightarrow> jsobject \<Rightarrow> jsobject" where
  "axios_request_config L httpOption url config =
     spread (spread (transport_defaults httpOption) (outgoing L (parameterStyle httpOption) config))
       [(''url'', JStr (normalize_url httpOption url))]"

text \<open>
  The rest of the \<^verbatim>\<open>try\<close> block, once the transport has resolved with \<open>resp\<close> (lines 103
  to 117). Reading \<^verbatim>\<open>data.data\<close> of a body that is \<^verbatim>\<open>undefined\<close> or \<^verbatim>\<open>null\<close> throws a
  \<^verbatim>\<open>TypeError\<close>, which the \<^verbatim>\<open>catch\<close> below receives. The log lines of \<^verbatim>\<open>request\<close>
  (with \<^verbatim>\<open>stringParams\<close>, \<^verbatim>\<open>stringBody\<close>, the clock and \<^verbatim>\<open>url = resp.config.url\<close>, which
  only they read) write to the logger and feed nothing into the result or into the
  transport call; they are left out.
\<close>

definition try_block :: "lodash \<Rightarrow> RequestConfig \<Rightarrow> AxiosResponse \<Rightarrow> AxiosError + ResponseSchema" where
  "try_block L httpOption resp =
     (let data = resp_data resp in
      if nullish data
      then Inl \<lparr>message = ''Cannot read properties of undefined'', response = None\<rparr>
      else
        let content =
              (if parameterStyle httpOption = CAMEL_TO_SNAKE
               then snakeToHump L (js_or (field data ''data'') (JObj [])) 10
               else if parameterStyle httpOption = SNAKE_TO_CAMEL
               then humpToSnake L (js_or (field data ''data'') (JObj [])) 10
               else field data ''data'')
        in Inr \<lparr>code = js_or (field data ''code'') (JNum 0),
                msg = js_or (field data ''msg'') (JStr []),
                data = content,
                status = resp_status resp\<rparr>)"

text \<open>
  The \<^verbatim>\<open>catch (err)\<close> block, lines 118 to 134. \<open>resp\<close> is the variable \<^verbatim>\<open>resp\<close> of
  \<^verbatim>\<open>request\<close>: assigned only when the transport resolved, so still \<^verbatim>\<open>undefined\<close>
  (\<open>None\<close>) when the transport rejected, and then \<^verbatim>\<open>resp.status\<close> throws.
\<close>

definition catch_block :: "AxiosResponse option \<Rightarrow> AxiosError \<Rightarrow> exn + ResponseSchema" where
  "catch_block resp err =
     (case response err of
        None \<Rightarrow> Inl TypeError
      | Some r \<Rightarrow>
          let body = (if \<not> truthy (resp_data r) then JObj [] else resp_data r) in
          if \<not> truthy (field body ''code'') \<and> \<not> truthy (field body ''data'')
          then Inl (HttpRequestApiException (message err))
          else
            (case resp of
               None \<Rightarrow> Inl TypeError
             | Some rp \<Rightarrow>
                 Inr \<lparr>code = js_or (field body ''code'') (JNum 0),
                      msg = js_or (field body ''msg'') (JStr (message err)),
                      data = field body ''data'',
                      status = resp_status rp\<rparr>))"

definition request :: "lodash \<Rightarrow> RequestConfig \<Rightarrow> transport \<Rightarrow> string \<Rightarrow> jsobject \<Rightarrow> exn + ResponseSchema" where
  "request L httpOption axios url config =
     (case axios (axios_request_config L httpOption url config) of
        Rejected err \<Rightarrow> catch_block None err
      | Resolved resp \<Rightarrow>
          (case try_block L httpOption resp of
             Inl err \<Rightarrow> catch_block (Some resp) err
           | Inr r \<Rightarrow> Inr r))"

text \<open>
  The verb wrappers, \<^verbatim>\<open>request(url, {...config, method: 'post'})\<close>; \<open>config\<close> is \<open>None\<close>
  when the caller passes none.
\<close>

definition with_method :: "jsobject option \<Rightarrow> string \<Rightarrow> jsobject" where
  "with_method config verb =
     spread (case config of None \<Rightarrow> [] | Some c \<Rightarrow> c) [(''method'', JStr verb)]"

definition post :: "lodash \<Rightarrow> RequestConfig \<Rightarrow> transport \<Rightarrow> string \<Rightarrow> jsobject option \<Rightarrow> exn + ResponseSchema" where
  "post L httpOption axios url config = request L httpOption axios url (with_method config ''post'')"

definition get :: "lodash \<Rightarrow> RequestConfig \<Rightarrow> transport \<Rightarrow> string \<Rightarrow> jsobject option \<Rightarrow> exn + ResponseSchema" where
  "get L httpOption axios url config = request L httpOption axios url (with_method config ''get'')"

definition put :: "lodash \<Rightarrow> RequestConfig \<Rightarrow> transport \<Rightarrow> string \<Rightarrow> jsobject option \<Rightarrow> exn + ResponseSchema" where
  "put L httpOption axios url config = request L httpOption axios url (with_method config ''put'')"

definition delete :: "lodash \<Rightarrow> RequestConfig \<Rightarrow> transport \<Rightarrow> string \<Rightarrow> jsobject option \<Rightarrow> exn + ResponseSchema" where
  "delete L httpOption axios url config = request L httpOption axios url (with_method config ''delete'')"

definition patch :: "lodash \<Rightarrow> RequestConfig \<Rightarrow> transport \<Rightarrow> string \<Rightarrow> jsobject option \<Rightarrow> exn + ResponseSchema" where
  "patch L httpOption axios url config = request L httpOption axios url (with_method config ''patch'')"

definition head :: "lodash \<Rightarrow> RequestConfig \<Rightarrow> transport \<Rightarrow> string \<Rightarrow> jsobject option \<Rightarrow> exn + ResponseSchema" where
  "head L httpOption axios url config = request L httpOption axios url (with_method config ''head'')"

section \<open>http.helper.ts on the store\<close>

text \<open>
  The same code with its objects in the store. \<open>h_get\<close> and \<open>h_rename_key\<close> are
  \<open>js_get\<close> and \<open>rename_key\<close> on the properties of a node.
\<close>

definition h_get :: "(string \<times> hval) list \<Rightarrow> string \<Rightarrow> hval" where
  "h_get ps k = (case map_of ps k of None \<Rightarrow> HUndefined | Some v \<Rightarrow> v)"

definition h_rename_key ::
  "(string \<Rightarrow> string) \<Rightarrow> string \<Rightarrow> (string \<times> hval) list \<Rightarrow> (string \<times> hval) list" where
  "h_rename_key f key ps =
     (let newKey = f key in
      if key \<noteq> newKey then AList.delete key (AList.update newKey (h_get ps key) ps) else ps)"

fun h_typeof_object :: "hval \<Rightarrow> bool" where
  "h_typeof_object HNull = True"
| "h_typeof_object (HRef a) = True"
| "h_typeof_object v = False"

text \<open>
  \<open>rewrite_store n f target depth h\<close> runs \<^verbatim>\<open>_snakeToHump(target, depth)\<close> on the store
  \<open>h\<close> and returns the store it leaves, with \<open>True\<close> when the call returned. On a store
  with a cycle through an array the recursion need not end, since every array element
  starts from depth \<open>10\<close> again: \<open>n\<close> bounds the number of nested calls, and \<open>False\<close>
  with the store reached so far stands for a recursion that ran out of stack. The loop
  of \<open>for_in_store\<close> reads the object afresh at every key, because a recursive call may
  have come back to it and renamed its keys.
\<close>

fun rewrite_store :: "nat \<Rightarrow> (string \<Rightarrow> string) \<Rightarrow> hval \<Rightarrow> int \<Rightarrow> store \<Rightarrow> bool \<times> store"
  and for_each_store :: "nat \<Rightarrow> (string \<Rightarrow> string) \<Rightarrow> hval list \<Rightarrow> store \<Rightarrow> bool \<times> store"
  and for_in_store :: "nat \<Rightarrow> (string \<Rightarrow> string) \<Rightarrow> addr \<Rightarrow> int \<Rightarrow> string list \<Rightarrow> store \<Rightarrow> bool \<times> store"
where
  "rewrite_store 0 f target depth h = (False, h)"
| "rewrite_store (Suc n) f target depth h =
     (if depth - 1 < 0 then (True, h)
      else
        case target of
          HRef a \<Rightarrow>
            (if a < length h
             then (case h ! a of
                     HArray items \<Rightarrow> for_each_store n f items h
                   | HObject ps \<Rightarrow> for_in_store n f a (depth - 1) (map fst ps) h)
             else (True, h))
        | _ \<Rightarrow> (True, h))"
| "for_each_store n f [] h = (True, h)"
| "for_each_store n f (item # items) h =
     (case rewrite_store n f item 10 h of
        (True, h1) \<Rightarrow> for_each_store n f items h1
      | (False, h1) \<Rightarrow> (False, h1))"
| "for_in_store n f a depth [] h = (True, h)"
| "for_in_store n f a depth (key # keys) h =
     (case h ! a of
        HArray items \<Rightarrow> (True, h)
      | HObject ps \<Rightarrow>
          if key \<notin> fst ` set ps then for_in_store n f a depth keys h
          else
            let ps1 = h_rename_key f key ps;
                h1 = h[a := HObject ps1]
            in if h_typeof_object (h_get ps1 (f key))
               then (case rewrite_store n f (h_get ps1 (f key)) depth h1 of
                       (True, h2) \<Rightarrow> for_in_store n f a depth keys h2
                     | (False, h2) \<Rightarrow> (False, h2))
               else for_in_store n f a depth keys h1)"

text \<open>
  The public entry points on the store: the store after the call, whether the call
  returned, and the value it returned.
\<close>

definition snakeToHump_store :: "nat \<Rightarrow> lodash \<Rightarrow> store \<Rightarrow> hval \<Rightarrow> int \<Rightarrow> bool \<times> store \<times> hval" where
  "snakeToHump_store n L h target depth =
     (case cloneDeep L h target of
        (h1, temp) \<Rightarrow>
          (case rewrite_store n (camelCase L) temp depth h1 of
             (returned, h2) \<Rightarrow> (returned, h2, if depth - 1 < 0 then HUndefined else temp)))"

definition humpToSnake_store :: "nat \<Rightarrow> lodash \<Rightarrow> store \<Rightarrow> hval \<Rightarrow> int \<Rightarrow> bool \<times> store \<times> hval" where
  "humpToSnake_store n L h target depth =
     (case cloneDeep L h target of
        (h1, temp) \<Rightarrow>
          (case rewrite_store n (snakeCase L) temp depth h1 of
             (returned, h2) \<Rightarrow> (returned, h2, if depth - 1 < 0 then HUndefined else temp)))"

text \<open>
  What a deep copy is: \<open>cloneDeep\<close> wrote to no node that existed (the old store is the
  first part of the new one), the value it returns is a scalar or a new node, and the
  new nodes refer to new nodes only. lodash copies plain objects and arrays this way.
\<close>

definition fresh_val :: "nat \<Rightarrow> store \<Rightarrow> hval \<Rightarrow> bool" where
  "fresh_val n h v = (case v of HRef a \<Rightarrow> n \<le> a \<and> a < length h | _ \<Rightarrow> True)"

fun node_vals :: "hnode \<Rightarrow> hval list" where
  "node_vals (HObject ps) = map snd ps"
| "node_vals (HArray xs) = xs"

definition closed_above :: "nat \<Rightarrow> store \<Rightarrow> bool" where
  "closed_above n h = list_all (\<lambda>node. list_all (fresh_val n h) (node_vals node)) (drop n h)"

definition deep_copy :: "store \<Rightarrow> store \<Rightarrow> hval \<Rightarrow> bool" where
  "deep_copy h h1 temp =
     (take (length h) h1 = h \<and> closed_above (length h) h1 \<and> fresh_val (length h) h1 temp)"

section \<open>Stand-ins for lodash at concrete inputs\<close>

text \<open>
  Modelled from the spec: lodash is not among the sources, and the specification
  describes its key functions as "a camelCase to snake_case pass lowercases and inserts
  \<^verbatim>\<open>_\<close> at camel-hump boundaries; a snake_case to camelCase pass removes \<^verbatim>\<open>_\<close> separators
  and capitalizes the following letter". These definitions follow that sentence on
  ASCII keys. They are used only where a theorem is instantiated at a concrete input.
\<close>

definition is_upper :: "char \<Rightarrow> bool" where
  "is_upper c = (65 \<le> (of_char c :: nat) \<and> (of_char c :: nat) \<le> 90)"

definition is_lower :: "char \<Rightarrow> bool" where
  "is_lower c = (97 \<le> (of_char c :: nat) \<and> (of_char c :: nat) \<le> 122)"

definition to_lower :: "char \<Rightarrow> char" where
  "to_lower c = (if is_upper c then char_of (of_char c + (32 :: nat)) else c)"

definition to_upper :: "char \<Rightarrow> char" where
  "to_upper c = (if is_lower c then char_of (of_char c - (32 :: nat)) else c)"

fun snake_chars :: "string \<Rightarrow> string" where
  "snake_chars [] = []"
| "snake_chars (c # cs) =
     (if is_upper c then CHR ''_'' # to_lower c # snake_chars cs else c # snake_chars cs)"

fun camel_chars :: "string \<Rightarrow> string" where
  "camel_chars [] = []"
| "camel_chars [c] = [c]"
| "camel_chars (c # d # cs) =
     (if c = CHR ''_'' then to_upper d # camel_chars cs else c # camel_chars (d # cs))"

text \<open>
  Modelled from the spec: a deep copy "so the original is never aliased or mutated".
  \<open>copy_val n h v\<close> copies what \<open>v\<close> refers to, node by node, into new nodes at the end
  of the store; \<open>n\<close> bounds the nesting it follows.
\<close>

fun copy_val :: "nat \<Rightarrow> store \<Rightarrow> hval \<Rightarrow> store \<times> hval"
  and copy_vals :: "nat \<Rightarrow> store \<Rightarrow> hval list \<Rightarrow> store \<times> hval list"
where
  "copy_val 0 h v = (h, v)"
| "copy_val (Suc n) h v =
     (case v of
        HRef a \<Rightarrow>
          (if a < length h
           then (case h ! a of
                   HObject ps \<Rightarrow>
                     (case copy_vals n h (map snd ps) of
                        (h1, vs) \<Rightarrow> (h1 @ [HObject (zip (map fst ps) vs)], HRef (length h1)))
                 | HArray xs \<Rightarrow>
                     (case copy_vals n h xs of
                        (h1, vs) \<Rightarrow> (h1 @ [HArray vs], HRef (length h1))))
           else (h, v))
      | _ \<Rightarrow> (h, v))"
| "copy_vals n h [] = (h, [])"
| "copy_vals n h (v # vs) =
     (case copy_val n h v of
        (h1, v1) \<Rightarrow> (case copy_vals n h1 vs of (h2, vs1) \<Rightarrow> (h2, v1 # vs1)))"

definition lodash_model :: lodash where
  "lodash_model =
     \<lparr>camelCase = camel_chars,
      snakeCase = snake_chars,
      cloneDeep = (\<lambda>h v. copy_val (Suc (length h)) h v)\<rparr>"

section \<open>The specification's wording, for comparison\<close>

text \<open>
  The specification words three points otherwise than the code: whether an error body
  "has a field" where the code tests the field's truthiness, the defaulting operator
  \<^verbatim>\<open>??\<close> where the code uses \<^verbatim>\<open>||\<close>, and the success payload transformed as it is where
  the code transforms \<^verbatim>\<open>data.data || {}\<close>. These definitions follow the specification's
  words; the theorems compare them with the definitions above.
\<close>

definition has_field :: "jsval \<Rightarrow> string \<Rightarrow> bool" where
  "has_field body k = (case body of JObj ps \<Rightarrow> k \<in> fst ` set ps | _ \<Rightarrow> False)"

definition js_nullish_or :: "jsval \<Rightarrow> jsval \<Rightarrow> jsval" where
  "js_nullish_or v w = (if nullish v then w else v)"

definition spec_success_envelope :: "lodash \<Rightarrow> ParameterStyle \<Rightarrow> AxiosResponse \<Rightarrow> ResponseSchema" where
  "spec_success_envelope L style resp =
     \<lparr>code = js_nullish_or (field (resp_data resp) ''code'') (JNum 0),
      msg = js_nullish_or (field (resp_data resp) ''msg'') (JStr []),
      data = (case style of
                CAMEL_TO_SNAKE \<Rightarrow> snakeToHump L (field (resp_data resp) ''data'') 10
              | SNAKE_TO_CAMEL \<Rightarrow> humpToSnake L (field (resp_data resp) ''data'') 10
              | NONE \<Rightarrow> field (resp_data resp) ''data''),
      status = resp_status resp\<rparr>"

section \<open>Facts about objects\<close>

lemma js_get_present:
  "k \<in> fst ` set ps \<Longrightarrow> map_of ps k = Some (js_get ps k)"
  by (cases "map_of ps k") (auto simp: js_get_def map_of_eq_None_iff)

lemma js_set_same:
  "map_of ps k = Some v \<Longrightarrow> js_set k v ps = ps"
  unfolding js_set_def by (induction ps) (auto split: if_splits)

lemma js_get_js_set: "js_get (js_set k v ps) k' = (if k' = k then v else js_get ps k')"
  by (simp add: js_get_def js_set_def update_conv')

lemma js_get_spread_single:
  "js_get (spread a [(k, v)]) k' = (if k' = k then v else js_get a k')"
  by (simp add: spread_def js_get_js_set)

section \<open>The request pipeline: theorems\<close>

lemma request_rejected:
  "axios (axios_request_config L httpOption url config) = Rejected err \<Longrightarrow>
   request L httpOption axios url config = catch_block None err"
  by (simp add: request_def)

lemma catch_block_unassigned_resp_throws: "catch_block None err \<noteq> Inr e"
  by (simp add: catch_block_def Let_def split: option.splits)

text \<open>Every rejected transport call ends in a throw; none returns an envelope.\<close>

lemma request_rejected_throws:
  "axios (axios_request_config L httpOption url config) = Rejected err \<Longrightarrow>
   request L httpOption axios url config \<noteq> Inr e"
  by (simp add: request_rejected catch_block_unassigned_resp_throws)

lemma request_resolved:
  "axios (axios_request_config L httpOption url config) = Resolved resp \<Longrightarrow>
   \<not> nullish (resp_data resp) \<Longrightarrow>
   request L httpOption axios url config =
     Inr \<lparr>code = js_or (field (resp_data resp) ''code'') (JNum 0),
          msg = js_or (field (resp_data resp) ''msg'') (JStr []),
          data = (case parameterStyle httpOption of
                    CAMEL_TO_SNAKE \<Rightarrow> snakeToHump L (js_or (field (resp_data resp) ''data'') (JObj [])) 10
                  | SNAKE_TO_CAMEL \<Rightarrow> humpToSnake L (js_or (field (resp_data resp) ''data'') (JObj [])) 10
                  | NONE \<Rightarrow> field (resp_data resp) ''data''),
          status = resp_status resp\<rparr>"
  by (cases "parameterStyle httpOption") (simp_all add: request_def try_block_def Let_def)

text \<open>
  C1. Claim: a transport failure whose error body carries a \<^verbatim>\<open>code\<close> and/or a \<^verbatim>\<open>data\<close>
  field is returned as a normal envelope, with the failed response's status, and not
  thrown. The code does not do this: on a rejected transport call the variable
  \<^verbatim>\<open>resp\<close> was never assigned, so building the envelope throws at \<^verbatim>\<open>resp.status\<close>. At the
  input of the claim's scenario (error body \<^verbatim>\<open>{code: 404, msg: "not found"}\<close>) the call
  ends in a \<^verbatim>\<open>TypeError\<close>.
\<close>

theorem request_structured_failure_throws:
  "request lodash_model \<lparr>protocol = None, parameterStyle = NONE, transport_defaults = []\<rparr>
     (\<lambda>c. Rejected \<lparr>message = ''Request failed with status code 404'',
                     response = Some \<lparr>resp_status = 404,
                        resp_data = JObj [(''code'', JNum 404), (''msg'', JStr ''not found'')]\<rparr>\<rparr>)
     ''api/x'' [] = Inl TypeError"
  by (simp add: request_def catch_block_def js_get_def)

text \<open>
  C2, as the claim states it, fails: the call throws \<^verbatim>\<open>HttpRequestApiException\<close> for the
  error body \<^verbatim>\<open>{code: 0}\<close>, which has a \<^verbatim>\<open>code\<close> field. The code tests
  \<^verbatim>\<open>!err.response.data.code && !err.response.data.data\<close>, the truthiness of the two
  fields and not their presence.
\<close>

theorem request_exception_iff_no_field_counterexample:
  "\<not> (request lodash_model \<lparr>protocol = None, parameterStyle = NONE, transport_defaults = []\<rparr>
        (\<lambda>c. Rejected \<lparr>message = ''boom'',
                        response = Some \<lparr>resp_status = 500,
                                          resp_data = JObj [(''code'', JNum 0)]\<rparr>\<rparr>)
        ''api/x'' [] = Inl (HttpRequestApiException ''boom'')
      \<longleftrightarrow> (\<not> has_field (JObj [(''code'', JNum 0)]) ''code''
           \<and> \<not> has_field (JObj [(''code'', JNum 0)]) ''data''))"
  by (simp add: request_def catch_block_def js_get_def has_field_def)

text \<open>
  C2, amended: for every transport failure whose error carries a response, with \<open>body\<close>
  the response body or \<^verbatim>\<open>{}\<close> when that body is falsy, the call throws
  \<^verbatim>\<open>HttpRequestApiException\<close> with the underlying error's message exactly when neither
  \<^verbatim>\<open>body.code\<close> nor \<^verbatim>\<open>body.data\<close> is truthy; in particular a response body
  \<^verbatim>\<open>undefined\<close> or \<^verbatim>\<open>{}\<close> results in this exception and never in a returned envelope.
\<close>

theorem request_exception_iff_no_truthy_field:
  assumes "axios (axios_request_config L httpOption url config) = Rejected err"
    and "response err = Some r"
    and "body = (if truthy (resp_data r) then resp_data r else JObj [])"
  shows "((request L httpOption axios url config = Inl (HttpRequestApiException (message err)))
            = (\<not> truthy (field body ''code'') \<and> \<not> truthy (field body ''data'')))
         \<and> (resp_data r = JUndefined \<or> resp_data r = JObj [] \<longrightarrow>
              request L httpOption axios url config = Inl (HttpRequestApiException (message err))
              \<and> (\<forall>e. request L httpOption axios url config \<noteq> Inr e))"
  using assms by (auto simp add: request_def catch_block_def Let_def js_get_def)

theorem request_exception_iff_no_truthy_field_witness:
  "request lodash_model \<lparr>protocol = None, parameterStyle = NONE, transport_defaults = []\<rparr>
     (\<lambda>c. Rejected \<lparr>message = ''boom'',
                     response = Some \<lparr>resp_status = 502, resp_data = JUndefined\<rparr>\<rparr>)
     ''api/x'' [] = Inl (HttpRequestApiException ''boom'')
   \<and> request lodash_model \<lparr>protocol = None, parameterStyle = NONE, transport_defaults = []\<rparr>
     (\<lambda>c. Rejected \<lparr>message = ''boom'',
                     response = Some \<lparr>resp_status = 502, resp_data = JObj []\<rparr>\<rparr>)
     ''api/x'' [] = Inl (HttpRequestApiException ''boom'')"
  using request_exception_iff_no_truthy_field
    [of "\<lambda>c. Rejected \<lparr>message = ''boom'',
                     response = Some \<lparr>resp_status = 502, resp_data = JUndefined\<rparr>\<rparr>"
        lodash_model "\<lparr>protocol = None, parameterStyle = NONE, transport_defaults = []\<rparr>"
        "''api/x''" "[]"
        "\<lparr>message = ''boom'', response = Some \<lparr>resp_status = 502, resp_data = JUndefined\<rparr>\<rparr>"
        "\<lparr>resp_status = 502, resp_data = JUndefined\<rparr>" "JObj []"]
    request_exception_iff_no_truthy_field
    [of "\<lambda>c. Rejected \<lparr>message = ''boom'',
                     response = Some \<lparr>resp_status = 502, resp_data = JObj []\<rparr>\<rparr>"
        lodash_model "\<lparr>protocol = None, parameterStyle = NONE, transport_defaults = []\<rparr>"
        "''api/x''" "[]"
        "\<lparr>message = ''boom'', response = Some \<lparr>resp_status = 502, resp_data = JObj []\<rparr>\<rparr>"
        "\<lparr>resp_status = 502, resp_data = JObj []\<rparr>" "JObj []"]
  by simp

text \<open>
  C6, as the claim states it, fails in its general part. With \<^verbatim>\<open>CAMEL_TO_SNAKE\<close> and the
  body \<^verbatim>\<open>{code: 0, msg: "ok", data: 0}\<close> the caller receives \<^verbatim>\<open>data: {}\<close>, not the
  transformed payload \<^verbatim>\<open>0\<close>: the code transforms \<^verbatim>\<open>data.data || {}\<close>. With the body
  \<^verbatim>\<open>{code: false, msg: "ok"}\<close> and \<^verbatim>\<open>NONE\<close> the caller receives \<^verbatim>\<open>code: 0\<close>, not
  \<^verbatim>\<open>false ?? 0\<close>, which is \<^verbatim>\<open>false\<close>: the code defaults with \<^verbatim>\<open>||\<close>.
\<close>

theorem request_success_envelope_counterexample:
  "request lodash_model \<lparr>protocol = None, parameterStyle = CAMEL_TO_SNAKE, transport_defaults = []\<rparr>
     (\<lambda>c. Resolved \<lparr>resp_status = 200,
                     resp_data = JObj [(''code'', JNum 0), (''msg'', JStr ''ok''), (''data'', JNum 0)]\<rparr>)
     ''api/x'' []
   \<noteq> Inr (spec_success_envelope lodash_model CAMEL_TO_SNAKE
            \<lparr>resp_status = 200,
             resp_data = JObj [(''code'', JNum 0), (''msg'', JStr ''ok''), (''data'', JNum 0)]\<rparr>)
   \<and>
   request lodash_model \<lparr>protocol = None, parameterStyle = NONE, transport_defaults = []\<rparr>
     (\<lambda>c. Resolved \<lparr>resp_status = 200,
                     resp_data = JObj [(''code'', JBool False), (''msg'', JStr ''ok'')]\<rparr>)
     ''api/x'' []
   \<noteq> Inr (spec_success_envelope lodash_model NONE
            \<lparr>resp_status = 200,
             resp_data = JObj [(''code'', JBool False), (''msg'', JStr ''ok'')]\<rparr>)"
  by (simp add: request_def try_block_def nullish_def js_or_def js_get_def
        spec_success_envelope_def js_nullish_or_def
        snakeToHump_def priv_snakeToHump_def)

text \<open>
  C6, amended: on a successful transport call whose body is neither \<^verbatim>\<open>undefined\<close> nor
  \<^verbatim>\<open>null\<close> the caller receives the envelope with \<^verbatim>\<open>code: data.code || 0\<close>,
  \<^verbatim>\<open>msg: data.msg || ''\<close>, the response status, and as \<^verbatim>\<open>data\<close> the payload \<^verbatim>\<open>data.data\<close> as
  it is under \<^verbatim>\<open>NONE\<close>, \<^verbatim>\<open>snakeToHump(data.data || {})\<close> under \<^verbatim>\<open>CAMEL_TO_SNAKE\<close> and
  \<^verbatim>\<open>humpToSnake(data.data || {})\<close> under \<^verbatim>\<open>SNAKE_TO_CAMEL\<close>. The scenario of the claim
  (body \<^verbatim>\<open>{code: 0, msg: "ok", data: {user_id: 5}}\<close>, status 200, \<^verbatim>\<open>CAMEL_TO_SNAKE\<close>) is
  the instance below it.
\<close>

theorem request_success_envelope:
  assumes "axios (axios_request_config L httpOption url config) = Resolved resp"
    and "\<not> nullish (resp_data resp)"
  shows "request L httpOption axios url config =
     Inr \<lparr>code = js_or (field (resp_data resp) ''code'') (JNum 0),
          msg = js_or (field (resp_data resp) ''msg'') (JStr []),
          data = (case parameterStyle httpOption of
                    CAMEL_TO_SNAKE \<Rightarrow> snakeToHump L (js_or (field (resp_data resp) ''data'') (JObj [])) 10
                  | SNAKE_TO_CAMEL \<Rightarrow> humpToSnake L (js_or (field (resp_data resp) ''data'') (JObj [])) 10
                  | NONE \<Rightarrow> field (resp_data resp) ''data''),
          status = resp_status resp\<rparr>"
  using assms by (rule request_resolved)

theorem request_success_envelope_witness:
  "request lodash_model \<lparr>protocol = None, parameterStyle = CAMEL_TO_SNAKE, transport_defaults = []\<rparr>
     (\<lambda>c. Resolved \<lparr>resp_status = 200,
                     resp_data = JObj [(''code'', JNum 0), (''msg'', JStr ''ok''),
                                       (''data'', JObj [(''user_id'', JNum 5)])]\<rparr>)
     ''api/x'' []
   = Inr \<lparr>code = JNum 0, msg = JStr ''ok'', data = JObj [(''userId'', JNum 5)], status = 200\<rparr>"
proof -
  have t: "snakeToHump lodash_model (JObj [(''user_id'', JNum 5)]) 10 = JObj [(''userId'', JNum 5)]"
    by code_simp
  show ?thesis
    using request_success_envelope
      [of "\<lambda>c. Resolved \<lparr>resp_status = 200,
                     resp_data = JObj [(''code'', JNum 0), (''msg'', JStr ''ok''),
                                       (''data'', JObj [(''user_id'', JNum 5)])]\<rparr>"
          lodash_model
          "\<lparr>protocol = None, parameterStyle = CAMEL_TO_SNAKE, transport_defaults = []\<rparr>"
          "''api/x''" "[]"]
    by (simp add: nullish_def js_or_def js_get_def t)
qed

text \<open>
  Where the two agree: the envelope is the one the specification words whenever the
  \<^verbatim>\<open>code\<close> and \<^verbatim>\<open>msg\<close> of the body are truthy or absent (or \<^verbatim>\<open>null\<close>), and the payload
  is truthy or the style is \<^verbatim>\<open>NONE\<close>.
\<close>

lemma request_matches_spec_wording:
  assumes "axios (axios_request_config L httpOption url config) = Resolved resp"
    and "\<not> nullish (resp_data resp)"
    and "truthy (field (resp_data resp) ''code'') \<or> nullish (field (resp_data resp) ''code'')"
    and "truthy (field (resp_data resp) ''msg'') \<or> nullish (field (resp_data resp) ''msg'')"
    and "truthy (field (resp_data resp) ''data'') \<or> parameterStyle httpOption = NONE"
  shows "request L httpOption axios url config
           = Inr (spec_success_envelope L (parameterStyle httpOption) resp)"
proof -
  have c: "js_or (field (resp_data resp) ''code'') (JNum 0)
             = js_nullish_or (field (resp_data resp) ''code'') (JNum 0)"
    using assms(3) by (auto simp: js_or_def js_nullish_or_def nullish_def)
  have m: "js_or (field (resp_data resp) ''msg'') (JStr [])
             = js_nullish_or (field (resp_data resp) ''msg'') (JStr [])"
    using assms(4) by (auto simp: js_or_def js_nullish_or_def nullish_def)
  have "request L httpOption axios url config =
     Inr \<lparr>code = js_or (field (resp_data resp) ''code'') (JNum 0),
          msg = js_or (field (resp_data resp) ''msg'') (JStr []),
          data = (case parameterStyle httpOption of
                    CAMEL_TO_SNAKE \<Rightarrow> snakeToHump L (js_or (field (resp_data resp) ''data'') (JObj [])) 10
                  | SNAKE_TO_CAMEL \<Rightarrow> humpToSnake L (js_or (field (resp_data resp) ''data'') (JObj [])) 10
                  | NONE \<Rightarrow> field (resp_data resp) ''data''),
          status = resp_status resp\<rparr>"
    using assms(1) assms(2) by (rule request_resolved)
  then show ?thesis
    using c m assms(5)
    by (cases "parameterStyle httpOption") (auto simp: spec_success_envelope_def js_or_def)
qed

lemma js_get_Nil: "js_get [] k = JUndefined"
  by (simp add: js_get_def)

lemma js_get_Cons: "js_get ((k, v) # ps) k' = (if k' = k then v else js_get ps k')"
  by (simp add: js_get_def)

lemma protocol_of_nonempty: "protocol_of httpOption \<noteq> []"
  by (simp add: protocol_of_def split: option.splits)

lemma normalize_url_nonempty: "normalize_url httpOption url \<noteq> []"
proof (cases "prefix (protocol_of httpOption) url")
  case True
  then have "url \<noteq> []" using protocol_of_nonempty[of httpOption] by auto
  then show ?thesis using True by (simp add: normalize_url_def Let_def)
next
  case False
  then show ?thesis
    using protocol_of_nonempty[of httpOption] by (simp add: normalize_url_def Let_def)
qed

lemma url_handed_to_transport:
  "js_get (axios_request_config L httpOption url config) ''url''
     = JStr (normalize_url httpOption url)"
  by (simp add: axios_request_config_def js_get_spread_single)

lemma transformers_leave_string:
  "snakeToHump L (JStr s) 10 = JStr s" "humpToSnake L (JStr s) 10 = JStr s"
  by (simp_all add: snakeToHump_def humpToSnake_def priv_snakeToHump_def priv_humpToSnake_def)

text \<open>
  C7. For every url, \<^verbatim>\<open>request\<close> hands the transport the url itself when it starts with
  the protocol string and \<^verbatim>\<open>protocol + "://" + url\<close> otherwise, the protocol string being
  the configured one, or \<^verbatim>\<open>"http"\<close> when none or the empty string is configured
  (\<^verbatim>\<open>this.httpOption.protocol || 'http'\<close>). The url is observed at the transport: a
  transport that fails with the url it was handed as its message makes \<^verbatim>\<open>request\<close> throw
  that url, and one that answers with the url it was handed as its payload makes
  \<^verbatim>\<open>request\<close> return it. \<^verbatim>\<open>request\<close> is the outcome of the one transport call on this
  config, whatever the transport.
\<close>

theorem request_url_prefixed_with_protocol:
  "js_get (axios_request_config L httpOption url config) ''url'' =
     JStr (if prefix (protocol_of httpOption) url then url
           else protocol_of httpOption @ ''://'' @ url)
   \<and> (\<forall>p. protocol httpOption = Some p \<and> p \<noteq> [] \<longrightarrow> protocol_of httpOption = p)
   \<and> (protocol httpOption = None \<or> protocol httpOption = Some [] \<longrightarrow>
        protocol_of httpOption = ''http'')
   \<and> request L httpOption
        (\<lambda>c. Rejected \<lparr>message = (case js_get c ''url'' of JStr u \<Rightarrow> u | _ \<Rightarrow> []),
                        response = Some \<lparr>resp_status = st, resp_data = JUndefined\<rparr>\<rparr>)
        url config
       = Inl (HttpRequestApiException
                (if prefix (protocol_of httpOption) url then url
                 else protocol_of httpOption @ ''://'' @ url))
   \<and> request L httpOption
        (\<lambda>c. Resolved \<lparr>resp_status = st, resp_data = JObj [(''data'', js_get c ''url'')]\<rparr>)
        url config
       = Inr \<lparr>code = JNum 0, msg = JStr [],
              data = JStr (if prefix (protocol_of httpOption) url then url
                           else protocol_of httpOption @ ''://'' @ url),
              status = st\<rparr>
   \<and> request L httpOption axios url config
       = (case axios (axios_request_config L httpOption url config) of
            Rejected err \<Rightarrow> catch_block None err
          | Resolved resp \<Rightarrow>
              (case try_block L httpOption resp of
                 Inl err \<Rightarrow> catch_block (Some resp) err
               | Inr r \<Rightarrow> Inr r))
   \<and> (axios (axios_request_config L httpOption url config)
        = axios' (axios_request_config L httpOption url config) \<longrightarrow>
      request L httpOption axios url config = request L httpOption axios' url config)"
proof -
  define u where "u = (if prefix (protocol_of httpOption) url then url
                       else protocol_of httpOption @ ''://'' @ url)"
  have n: "normalize_url httpOption url = u" by (simp add: normalize_url_def Let_def u_def)
  have ne: "u \<noteq> []" using normalize_url_nonempty[of httpOption url] n by simp
  have uget: "js_get (axios_request_config L httpOption url config) ''url'' = JStr u"
    using url_handed_to_transport[of L httpOption url config] n by simp
  have p1: "\<forall>p. protocol httpOption = Some p \<and> p \<noteq> [] \<longrightarrow> protocol_of httpOption = p"
    by (simp add: protocol_of_def)
  have p2: "protocol httpOption = None \<or> protocol httpOption = Some [] \<longrightarrow>
        protocol_of httpOption = ''http''"
    by (auto simp: protocol_of_def)
  have rej: "request L httpOption
        (\<lambda>c. Rejected \<lparr>message = (case js_get c ''url'' of JStr u \<Rightarrow> u | _ \<Rightarrow> []),
                        response = Some \<lparr>resp_status = st, resp_data = JUndefined\<rparr>\<rparr>)
        url config = Inl (HttpRequestApiException u)"
    by (simp add: request_def catch_block_def uget Let_def js_get_Nil)
  have res: "request L httpOption
        (\<lambda>c. Resolved \<lparr>resp_status = st, resp_data = JObj [(''data'', js_get c ''url'')]\<rparr>)
        url config
       = Inr \<lparr>code = JNum 0, msg = JStr [], data = JStr u, status = st\<rparr>"
    using ne
    by (simp add: request_def try_block_def nullish_def uget js_get_Nil js_get_Cons js_or_def
          Let_def transformers_leave_string)
  have unfolded: "request L httpOption axios url config
       = (case axios (axios_request_config L httpOption url config) of
            Rejected err \<Rightarrow> catch_block None err
          | Resolved resp \<Rightarrow>
              (case try_block L httpOption resp of
                 Inl err \<Rightarrow> catch_block (Some resp) err
               | Inr r \<Rightarrow> Inr r))"
    by (simp add: request_def)
  have same: "axios (axios_request_config L httpOption url config)
        = axios' (axios_request_config L httpOption url config) \<longrightarrow>
      request L httpOption axios url config = request L httpOption axios' url config"
    by (simp add: request_def)
  show ?thesis
    using uget p1 p2 rej res unfolded same unfolding u_def by blast
qed

theorem request_url_prefixed_with_protocol_witness:
  "request lodash_model
     \<lparr>protocol = Some ''https'', parameterStyle = NONE, transport_defaults = []\<rparr>
     (\<lambda>c. Resolved \<lparr>resp_status = 200, resp_data = JObj [(''data'', js_get c ''url'')]\<rparr>)
     ''service.internal/x'' []
   = Inr \<lparr>code = JNum 0, msg = JStr [], data = JStr ''https://service.internal/x'', status = 200\<rparr>
   \<and> request lodash_model
     \<lparr>protocol = None, parameterStyle = NONE, transport_defaults = []\<rparr>
     (\<lambda>c. Resolved \<lparr>resp_status = 200, resp_data = JObj [(''data'', js_get c ''url'')]\<rparr>)
     ''http://service.internal/x'' []
   = Inr \<lparr>code = JNum 0, msg = JStr [], data = JStr ''http://service.internal/x'', status = 200\<rparr>
   \<and> request lodash_model
     \<lparr>protocol = Some ''https'', parameterStyle = NONE, transport_defaults = []\<rparr>
     (\<lambda>c. Rejected \<lparr>message = (case js_get c ''url'' of JStr u \<Rightarrow> u | _ \<Rightarrow> []),
                     response = Some \<lparr>resp_status = 0, resp_data = JUndefined\<rparr>\<rparr>)
     ''service.internal/x'' []
   = Inl (HttpRequestApiException ''https://service.internal/x'')"
  using request_url_prefixed_with_protocol
      [of lodash_model "\<lparr>protocol = Some ''https'', parameterStyle = NONE, transport_defaults = []\<rparr>"
          "''service.internal/x''" "[]" 200
          "\<lambda>c. Rejected \<lparr>message = [], response = None\<rparr>"
          "\<lambda>c. Rejected \<lparr>message = [], response = None\<rparr>"]
    request_url_prefixed_with_protocol
      [of lodash_model "\<lparr>protocol = None, parameterStyle = NONE, transport_defaults = []\<rparr>"
          "''http://service.internal/x''" "[]" 200
          "\<lambda>c. Rejected \<lparr>message = [], response = None\<rparr>"
          "\<lambda>c. Rejected \<lparr>message = [], response = None\<rparr>"]
    request_url_prefixed_with_protocol
      [of lodash_model "\<lparr>protocol = Some ''https'', parameterStyle = NONE, transport_defaults = []\<rparr>"
          "''service.internal/x''" "[]" 0
          "\<lambda>c. Rejected \<lparr>message = [], response = None\<rparr>"
          "\<lambda>c. Rejected \<lparr>message = [], response = None\<rparr>"]
  by (simp add: protocol_of_def)

lemma distinct_js_set: "distinct (map fst (js_set k v ps)) = distinct (map fst ps)"
  by (simp add: js_set_def update_keys)

lemma js_get_spread:
  "distinct (map fst b) \<Longrightarrow>
   js_get (spread a b) k = (if k \<in> fst ` set b then js_get b k else js_get a k)"
proof (induction b arbitrary: a)
  case Nil
  then show ?case by (simp add: spread_def)
next
  case (Cons p b)
  have unfold: "spread a (p # b) = spread (js_set (fst p) (snd p) a) b"
    by (simp add: spread_def)
  have ih: "js_get (spread (js_set (fst p) (snd p) a) b) k =
        (if k \<in> fst ` set b then js_get b k else js_get (js_set (fst p) (snd p) a) k)"
    using Cons by simp
  show ?case
  proof (cases "k \<in> fst ` set b")
    case True
    have "fst p \<notin> fst ` set b" using Cons.prems by simp
    with True have "k \<noteq> fst p" by blast
    then have "js_get (p # b) k = js_get b k" by (cases p) (simp add: js_get_def)
    then show ?thesis using True unfold ih by simp
  next
    case False
    have g: "js_get (p # b) k' = (if k' = fst p then snd p else js_get b k')" for k'
      by (cases p) (simp add: js_get_def)
    show ?thesis using False unfold ih by (simp add: js_get_js_set g)
  qed
qed

lemma outgoing_method:
  "js_get (outgoing L style config) ''method'' = js_get config ''method''"
  by (cases style) (simp_all add: outgoing_def Let_def js_get_js_set)

lemma outgoing_distinct:
  "distinct (map fst (outgoing L style config)) = distinct (map fst config)"
  by (cases style) (simp_all add: outgoing_def Let_def distinct_js_set)

lemma outgoing_has_method:
  "''method'' \<in> fst ` set config \<Longrightarrow> ''method'' \<in> fst ` set (outgoing L style config)"
  by (cases style) (simp_all add: outgoing_def Let_def keys_js_set)

lemma with_method_props:
  "js_get (with_method config verb) ''method'' = JStr verb"
  "k \<noteq> ''method'' \<Longrightarrow>
     js_get (with_method config verb) k = js_get (case config of None \<Rightarrow> [] | Some c \<Rightarrow> c) k"
  "''method'' \<in> fst ` set (with_method config verb)"
  "distinct (map fst (with_method config verb))
     = distinct (map fst (case config of None \<Rightarrow> [] | Some c \<Rightarrow> c))"
  by (simp_all add: with_method_def spread_def js_get_js_set keys_js_set distinct_js_set)

text \<open>
  C9. Each verb wrapper is the core \<open>request\<close> on the same url and on the caller's config
  with \<^verbatim>\<open>method\<close> set to the wrapper's verb: in that config \<^verbatim>\<open>method\<close> is the verb and
  every other property is the caller's, and the transport is handed the verb as
  \<^verbatim>\<open>method\<close>, whatever the service-wide defaults say.
\<close>

theorem verb_wrappers_are_request_with_method:
  "post L httpOption axios url config = request L httpOption axios url (with_method config ''post'')
   \<and> get L httpOption axios url config = request L httpOption axios url (with_method config ''get'')
   \<and> put L httpOption axios url config = request L httpOption axios url (with_method config ''put'')
   \<and> delete L httpOption axios url config = request L httpOption axios url (with_method config ''delete'')
   \<and> patch L httpOption axios url config = request L httpOption axios url (with_method config ''patch'')
   \<and> head L httpOption axios url config = request L httpOption axios url (with_method config ''head'')
   \<and> js_get (with_method config verb) ''method'' = JStr verb
   \<and> (\<forall>k. k \<noteq> ''method'' \<longrightarrow>
         js_get (with_method config verb) k = js_get (case config of None \<Rightarrow> [] | Some c \<Rightarrow> c) k)
   \<and> (distinct (map fst (case config of None \<Rightarrow> [] | Some c \<Rightarrow> c)) \<longrightarrow>
         js_get (axios_request_config L httpOption url (with_method config verb)) ''method'' = JStr verb)"
proof -
  have "js_get (axios_request_config L httpOption url (with_method config verb)) ''method'' = JStr verb"
    if d: "distinct (map fst (case config of None \<Rightarrow> [] | Some c \<Rightarrow> c))"
  proof -
    let ?c = "outgoing L (parameterStyle httpOption) (with_method config verb)"
    have dc: "distinct (map fst ?c)"
      using d by (simp add: outgoing_distinct with_method_props(4))
    have mc: "''method'' \<in> fst ` set ?c"
      by (rule outgoing_has_method) (rule with_method_props(3))
    have "js_get (axios_request_config L httpOption url (with_method config verb)) ''method''
            = js_get (spread (transport_defaults httpOption) ?c) ''method''"
      by (simp add: axios_request_config_def js_get_spread_single)
    also have "\<dots> = js_get ?c ''method''"
      using js_get_spread[OF dc, of "transport_defaults httpOption" "''method''"] mc by simp
    also have "\<dots> = JStr verb"
      by (simp add: outgoing_method with_method_props(1))
    finally show ?thesis .
  qed
  then show ?thesis
    by (simp add: post_def get_def put_def delete_def patch_def head_def with_method_props)
qed

theorem verb_wrappers_are_request_with_method_witness:
  "post lodash_model
     \<lparr>protocol = None, parameterStyle = NONE, transport_defaults = [(''method'', JStr ''get'')]\<rparr>
     (\<lambda>c. Resolved \<lparr>resp_status = 200, resp_data = JObj [(''data'', js_get c ''method'')]\<rparr>)
     ''api/x'' (Some [(''method'', JStr ''put''), (''data'', JNum 1)])
   = Inr \<lparr>code = JNum 0, msg = JStr [], data = JStr ''post'', status = 200\<rparr>"
proof -
  have d: "distinct (map fst (case Some [(''method'', JStr ''put''), (''data'', JNum 1)] of
             None \<Rightarrow> [] | Some c \<Rightarrow> c))"
    by simp
  show ?thesis
    using d verb_wrappers_are_request_with_method
      [of lodash_model
          "\<lparr>protocol = None, parameterStyle = NONE, transport_defaults = [(''method'', JStr ''get'')]\<rparr>"
          "\<lambda>c. Resolved \<lparr>resp_status = 200, resp_data = JObj [(''data'', js_get c ''method'')]\<rparr>"
          "''api/x''" "Some [(''method'', JStr ''put''), (''data'', JNum 1)]" "''post''"]
    by (simp add: request_def try_block_def nullish_def js_or_def js_get_def)
qed

text \<open>
  C10. On a successful transport call whose body is an object with no \<^verbatim>\<open>data\<close> field,
  the \<^verbatim>\<open>data\<close> of the envelope is \<^verbatim>\<open>undefined\<close> when \<^verbatim>\<open>parameterStyle\<close> is \<^verbatim>\<open>NONE\<close> and
  the empty object \<^verbatim>\<open>{}\<close> when it is \<^verbatim>\<open>CAMEL_TO_SNAKE\<close> or \<^verbatim>\<open>SNAKE_TO_CAMEL\<close>.
\<close>

theorem request_absent_payload:
  assumes "axios (axios_request_config L httpOption url config) = Resolved resp"
    and "resp_data resp = JObj ps"
    and "''data'' \<notin> fst ` set ps"
  shows "request L httpOption axios url config =
     Inr \<lparr>code = js_or (js_get ps ''code'') (JNum 0),
          msg = js_or (js_get ps ''msg'') (JStr []),
          data = (if parameterStyle httpOption = NONE then JUndefined else JObj []),
          status = resp_status resp\<rparr>"
proof -
  have "map_of ps ''data'' = None"
    using assms(3) by (simp add: map_of_eq_None_iff)
  then have nd: "js_get ps ''data'' = JUndefined"
    by (simp add: js_get_def)
  have nn: "\<not> nullish (resp_data resp)" using assms(2) by (simp add: nullish_def)
  have "request L httpOption axios url config =
     Inr \<lparr>code = js_or (field (resp_data resp) ''code'') (JNum 0),
          msg = js_or (field (resp_data resp) ''msg'') (JStr []),
          data = (case parameterStyle httpOption of
                    CAMEL_TO_SNAKE \<Rightarrow> snakeToHump L (js_or (field (resp_data resp) ''data'') (JObj [])) 10
                  | SNAKE_TO_CAMEL \<Rightarrow> humpToSnake L (js_or (field (resp_data resp) ''data'') (JObj [])) 10
                  | NONE \<Rightarrow> field (resp_data resp) ''data''),
          status = resp_status resp\<rparr>"
    using assms(1) nn by (rule request_resolved)
  then show ?thesis
    using assms(2) nd
    by (cases "parameterStyle httpOption")
       (simp_all add: js_or_def snakeToHump_def humpToSnake_def priv_snakeToHump_def
          priv_humpToSnake_def)
qed

theorem request_absent_payload_witness:
  "request lodash_model \<lparr>protocol = None, parameterStyle = NONE, transport_defaults = []\<rparr>
     (\<lambda>c. Resolved \<lparr>resp_status = 204, resp_data = JObj [(''code'', JNum 7)]\<rparr>) ''api/x'' []
   = Inr \<lparr>code = JNum 7, msg = JStr [], data = JUndefined, status = 204\<rparr>
   \<and>
   request lodash_model \<lparr>protocol = None, parameterStyle = SNAKE_TO_CAMEL, transport_defaults = []\<rparr>
     (\<lambda>c. Resolved \<lparr>resp_status = 204, resp_data = JObj [(''code'', JNum 7)]\<rparr>) ''api/x'' []
   = Inr \<lparr>code = JNum 7, msg = JStr [], data = JObj [], status = 204\<rparr>"
  using request_absent_payload
      [of "\<lambda>c. Resolved \<lparr>resp_status = 204, resp_data = JObj [(''code'', JNum 7)]\<rparr>"
          lodash_model "\<lparr>protocol = None, parameterStyle = NONE, transport_defaults = []\<rparr>"
          "''api/x''" "[]" "\<lparr>resp_status = 204, resp_data = JObj [(''code'', JNum 7)]\<rparr>"
          "[(''code'', JNum 7)]"]
    request_absent_payload
      [of "\<lambda>c. Resolved \<lparr>resp_status = 204, resp_data = JObj [(''code'', JNum 7)]\<rparr>"
          lodash_model "\<lparr>protocol = None, parameterStyle = SNAKE_TO_CAMEL, transport_defaults = []\<rparr>"
          "''api/x''" "[]" "\<lparr>resp_status = 204, resp_data = JObj [(''code'', JNum 7)]\<rparr>"
          "[(''code'', JNum 7)]"]
  by (simp add: js_or_def js_get_def)

section \<open>The key-case transformer: theorems\<close>

lemma all_keys_js_get:
  "list_all (\<lambda>p. P (fst p) \<and> all_keys P (snd p)) ps \<Longrightarrow> all_keys P (js_get ps k)"
  by (induction ps) (auto simp: js_get_def)

lemma rewrite_fixed:
  "all_keys (\<lambda>k. f k = k) v \<Longrightarrow> rewrite f v d = v"
  "(\<forall>k \<in> set ks. f k = k) \<Longrightarrow>
     list_all (\<lambda>p. f (fst p) = fst p \<and> all_keys (\<lambda>k. f k = k) (snd p)) ps \<Longrightarrow>
     for_in f d' ks ps = ps"
proof (induction f v d and f d' ks ps rule: rewrite_for_in.induct)
  case (1 f xs depth)
  then show ?case by (auto simp: list_all_iff intro: map_idI)
next
  case (2 f ps depth)
  then show ?case by (auto simp: list_all_iff)
next
  case (9 f depth key keys ps)
  have fk: "f key = key" using 9(5) by simp
  have rk: "rename_key f key ps = ps" using fk by (simp add: rename_key_def)
  show ?case
  proof (cases "key \<in> fst ` set ps")
    case False
    then show ?thesis using 9 by simp
  next
    case True
    have child: "all_keys (\<lambda>k. f k = k) (js_get ps key)"
      using 9(6) by (rule all_keys_js_get)
    show ?thesis
    proof (cases "typeof_object (js_get ps key)")
      case False
      then show ?thesis using 9(4) 9(5) 9(6) True rk fk by simp
    next
      case tobj: True
      have "rewrite f (js_get ps key) depth = js_get ps key"
        using 9(2) True tobj child rk fk by simp
      then have "js_set key (rewrite f (js_get ps key) depth) ps = ps"
        using js_set_same[OF js_get_present[OF True]] by simp
      then show ?thesis using 9(3) 9(5) 9(6) True tobj rk fk by simp
    qed
  qed
qed simp_all

text \<open>
  C8. On an input whose keys, at every nesting depth, are already in the target
  convention (the key function maps each of them to itself), \<^verbatim>\<open>snakeToHump\<close> and
  \<^verbatim>\<open>humpToSnake\<close> with a positive depth return the input as it is: equal to it, key order
  included, so no key is modified.
\<close>

theorem transformer_noop_in_target_convention:
  assumes "1 \<le> depth"
  shows "(all_keys (\<lambda>k. camelCase L k = k) x \<longrightarrow> snakeToHump L x depth = x) \<and>
         (all_keys (\<lambda>k. snakeCase L k = k) x \<longrightarrow> humpToSnake L x depth = x)"
  using assms
  by (simp add: snakeToHump_def humpToSnake_def priv_snakeToHump_def priv_humpToSnake_def
        rewrite_fixed(1))

theorem transformer_noop_in_target_convention_witness:
  "snakeToHump lodash_model
     (JObj [(''userId'', JNum 5), (''tags'', JArr [JObj [(''tagName'', JStr ''a'')]])]) 10
   = JObj [(''userId'', JNum 5), (''tags'', JArr [JObj [(''tagName'', JStr ''a'')]])]
   \<and> humpToSnake lodash_model
     (JObj [(''user_id'', JNum 5), (''tags'', JArr [JObj [(''tag_name'', JStr ''a'')]])]) 10
   = JObj [(''user_id'', JNum 5), (''tags'', JArr [JObj [(''tag_name'', JStr ''a'')]])]"
proof -
  have c: "all_keys (\<lambda>k. camelCase lodash_model k = k)
             (JObj [(''userId'', JNum 5), (''tags'', JArr [JObj [(''tagName'', JStr ''a'')]])])"
    by code_simp
  have s: "all_keys (\<lambda>k. snakeCase lodash_model k = k)
             (JObj [(''user_id'', JNum 5), (''tags'', JArr [JObj [(''tag_name'', JStr ''a'')]])])"
    by code_simp
  have d: "(1::int) \<le> 10" by simp
  show ?thesis
    using c s
      transformer_noop_in_target_convention[OF d, of lodash_model
        "JObj [(''userId'', JNum 5), (''tags'', JArr [JObj [(''tagName'', JStr ''a'')]])]"]
      transformer_noop_in_target_convention[OF d, of lodash_model
        "JObj [(''user_id'', JNum 5), (''tags'', JArr [JObj [(''tag_name'', JStr ''a'')]])]"]
    by blast
qed

text \<open>
  C4. Claim: at an array the transformer recurses into each element with budget
  \<open>d - 1\<close>, so keys beyond the budget stay unrenamed. The code calls
  \<^verbatim>\<open>_snakeToHump(item)\<close> with no depth, and the element starts from the default \<open>10\<close>:
  with budget \<open>1\<close> the key inside \<^verbatim>\<open>[{a_b: 1}]\<close>, two levels down, is renamed all the
  same, and likewise for \<^verbatim>\<open>humpToSnake\<close>.
\<close>

theorem array_elements_restart_depth:
  "snakeToHump lodash_model (JArr [JObj [(''a_b'', JNum 1)]]) 1 = JArr [JObj [(''aB'', JNum 1)]]
   \<and> humpToSnake lodash_model (JArr [JObj [(''aB'', JNum 1)]]) 1 = JArr [JObj [(''a_b'', JNum 1)]]"
  by code_simp

section \<open>Round trips\<close>

lemma rewrite_scalar: "\<not> typeof_object v \<Longrightarrow> rewrite f v d = v"
  by (cases v) simp_all

lemma map_of_js_set: "map_of (js_set k v ps) = (map_of ps)(k \<mapsto> v)"
  by (simp add: js_set_def update_conv')

lemma map_of_js_delete: "map_of (js_delete k ps) = (map_of ps)(k := None)"
  by (simp add: js_delete_def delete_conv')

lemma distinct_js_delete: "distinct (map fst ps) \<Longrightarrow> distinct (map fst (js_delete k ps))"
  by (simp add: js_delete_def distinct_delete)

lemma distinct_rename_key: "distinct (map fst ps) \<Longrightarrow> distinct (map fst (rename_key f key ps))"
  by (simp add: rename_key_def Let_def distinct_js_delete distinct_js_set)

lemma keys_dom: "fst ` set ps = dom (map_of ps)"
  by (simp add: dom_map_of_conv_image_fst)

text \<open>
  One iteration of the loop on the object as a map: the entry of \<open>key\<close> goes, and
  \<open>f key\<close> holds the walked value.
\<close>

lemma for_in_step:
  assumes "map_of cur key = Some v"
  shows "\<exists>cur2. for_in f depth (key # keys) cur = for_in f depth keys cur2
           \<and> map_of cur2 = ((map_of cur)(key := None))(f key \<mapsto> rewrite f v depth)
           \<and> (distinct (map fst cur) \<longrightarrow> distinct (map fst cur2))"
proof -
  let ?ps1 = "rename_key f key cur"
  have k: "key \<in> fst ` set cur" using assms by (auto simp: keys_dom)
  have v: "js_get cur key = v" using assms by (simp add: js_get_def)
  have m1: "map_of ?ps1 = ((map_of cur)(key := None))(f key \<mapsto> v)"
  proof (cases "f key = key")
    case True
    then show ?thesis using assms by (auto simp: rename_key_def)
  next
    case False
    then show ?thesis
      using v by (auto simp: rename_key_def Let_def map_of_js_set map_of_js_delete)
  qed
  have g1: "js_get ?ps1 (f key) = v" using m1 by (simp add: js_get_def)
  show ?thesis
  proof (cases "typeof_object v")
    case True
    let ?cur2 = "js_set (f key) (rewrite f v depth) ?ps1"
    have "for_in f depth (key # keys) cur = for_in f depth keys ?cur2"
      using k True g1 by simp
    moreover have "map_of ?cur2 = ((map_of cur)(key := None))(f key \<mapsto> rewrite f v depth)"
      using m1 by (simp add: map_of_js_set)
    moreover have "distinct (map fst cur) \<longrightarrow> distinct (map fst ?cur2)"
      by (simp add: distinct_js_set distinct_rename_key)
    ultimately show ?thesis by blast
  next
    case False
    have "for_in f depth (key # keys) cur = for_in f depth keys ?ps1"
      using k False g1 by simp
    moreover have "map_of ?ps1 = ((map_of cur)(key := None))(f key \<mapsto> rewrite f v depth)"
      using m1 rewrite_scalar[OF False] by simp
    moreover have "distinct (map fst cur) \<longrightarrow> distinct (map fst ?ps1)"
      by (simp add: distinct_rename_key)
    ultimately show ?thesis by blast
  qed
qed

lemma for_in_absent:
  "map_of cur key = None \<Longrightarrow> for_in f depth (key # keys) cur = for_in f depth keys cur"
  by (simp add: keys_dom domIff)

lemma for_in_distinct:
  "distinct (map fst cur) \<Longrightarrow> distinct (map fst (for_in f depth ks cur))"
proof (induction ks arbitrary: cur)
  case Nil
  then show ?case by simp
next
  case (Cons key keys)
  show ?case
  proof (cases "map_of cur key")
    case None
    then show ?thesis using Cons by (simp only: for_in_absent)
  next
    case (Some v)
    then obtain cur2 where "for_in f depth (key # keys) cur = for_in f depth keys cur2"
      and "distinct (map fst cur2)"
      using for_in_step[of cur key v f depth keys] Cons.prems by blast
    then show ?thesis using Cons.IH by simp
  qed
qed

text \<open>
  The whole loop, when no new key clashes with a key of the object and no two keys are
  renamed to the same key: the entry of every visited key \<open>k\<close> ends under \<open>f k\<close> with
  the walked value, a visited key that is no new key is gone, and the rest is untouched.
\<close>

lemma for_in_map:
  assumes "distinct ks" and "set ks \<subseteq> dom (map_of cur)"
    and "inj_on f (set ks)" and "\<forall>k \<in> set ks. f k \<in> dom (map_of cur) \<longrightarrow> f k = k"
  shows "(\<forall>k \<in> set ks. map_of (for_in f depth ks cur) (f k)
                          = map_option (\<lambda>v. rewrite f v depth) (map_of cur k))
       \<and> (\<forall>k'. k' \<notin> f ` set ks \<longrightarrow>
              map_of (for_in f depth ks cur) k' = (if k' \<in> set ks then None else map_of cur k'))"
  using assms
proof (induction ks arbitrary: cur)
  case Nil
  then show ?case by simp
next
  case (Cons key keys)
  obtain v where v: "map_of cur key = Some v" using Cons.prems(2) by auto
  obtain cur2 where run: "for_in f depth (key # keys) cur = for_in f depth keys cur2"
    and m2: "map_of cur2 = ((map_of cur)(key := None))(f key \<mapsto> rewrite f v depth)"
    using for_in_step[OF v, of f depth keys] by blast
  have knk: "key \<notin> set keys" and dk: "distinct keys" using Cons.prems(1) by simp_all
  have inj2: "inj_on f (set keys)" using Cons.prems(3) by (simp add: inj_on_def)
  have fne: "f k \<noteq> f key" if "k \<in> set keys" for k
  proof
    assume "f k = f key"
    then have "k = key" using Cons.prems(3) that by (simp add: inj_on_def)
    then show False using that knk by simp
  qed
  have fk_notin: "f key \<notin> set keys"
  proof
    assume a: "f key \<in> set keys"
    then have "f key \<in> dom (map_of cur)" using Cons.prems(2) by auto
    then have "f key = key" using Cons.prems(4) by simp
    then show False using a knk by simp
  qed
  have sub2: "set keys \<subseteq> dom (map_of cur2)"
  proof
    fix k assume k: "k \<in> set keys"
    then have "k \<noteq> key" using knk by auto
    moreover have "k \<in> dom (map_of cur)" using Cons.prems(2) k by auto
    ultimately show "k \<in> dom (map_of cur2)" unfolding m2 by auto
  qed
  have nc2: "\<forall>k \<in> set keys. f k \<in> dom (map_of cur2) \<longrightarrow> f k = k"
  proof (intro ballI impI)
    fix k assume k: "k \<in> set keys" and m: "f k \<in> dom (map_of cur2)"
    have "f k \<in> dom (map_of cur)" using m fne[OF k] unfolding m2 by (auto split: if_splits)
    then show "f k = k" using Cons.prems(4) k by simp
  qed
  have ih1: "\<forall>k \<in> set keys. map_of (for_in f depth keys cur2) (f k)
                          = map_option (\<lambda>v. rewrite f v depth) (map_of cur2 k)"
    and ih2: "\<forall>k'. k' \<notin> f ` set keys \<longrightarrow>
              map_of (for_in f depth keys cur2) k' = (if k' \<in> set keys then None else map_of cur2 k')"
    using Cons.IH[OF dk sub2 inj2 nc2] by simp_all
  have fk_img: "f key \<notin> f ` set keys"
  proof
    assume "f key \<in> f ` set keys"
    then obtain k where "k \<in> set keys" and "f key = f k" by auto
    then show False using fne[of k] by simp
  qed
  have A: "map_of (for_in f depth keys cur2) (f k)
             = map_option (\<lambda>v. rewrite f v depth) (map_of cur k)" if "k \<in> set (key # keys)" for k
  proof (cases "k = key")
    case True
    have "map_of (for_in f depth keys cur2) (f key) = map_of cur2 (f key)"
      using ih2 fk_img fk_notin by simp
    then show ?thesis using True v m2 by simp
  next
    case False
    then have k: "k \<in> set keys" using that by simp
    have "k \<noteq> f key" using fk_notin k by auto
    then have "map_of cur2 k = map_of cur k" using False m2 by simp
    then show ?thesis using ih1 k by simp
  qed
  have B: "map_of (for_in f depth keys cur2) k'
             = (if k' \<in> set (key # keys) then None else map_of cur k')"
    if "k' \<notin> f ` set (key # keys)" for k'
  proof -
    have n1: "k' \<noteq> f key" and n2: "k' \<notin> f ` set keys" using that by auto
    have "map_of (for_in f depth keys cur2) k' = (if k' \<in> set keys then None else map_of cur2 k')"
      using ih2 n2 by simp
    moreover have "map_of cur2 k' = (if k' = key then None else map_of cur k')"
      using n1 m2 by simp
    ultimately show ?thesis by (cases "k' = key") auto
  qed
  show ?case unfolding run using A B by blast
qed

lemma deep_eq_refl: "well_formed v \<Longrightarrow> deep_eq v v"
proof (induction v)
  case (JArr xs)
  then show ?case by (simp add: list_all2_same list_all_iff)
next
  case (JObj ps)
  have "case map_of ps (fst p) of None \<Rightarrow> False | Some w \<Rightarrow> deep_eq (snd p) w"
    if p: "p \<in> set ps" for p
  proof -
    have "map_of ps (fst p) = Some (snd p)" using JObj.prems p by (cases p) simp
    moreover have "deep_eq (snd p) (snd p)"
      using JObj.IH[of p "snd p"] JObj.prems p by (cases p) (auto simp: list_all_iff)
    ultimately show ?thesis by simp
  qed
  moreover have "map_of ps (fst q) \<noteq> None" if "q \<in> set ps" for q
    using that by (simp add: map_of_eq_None_iff)
  ultimately show ?case by (simp add: list_all_iff)
qed simp_all


text \<open>
  The two passes over one object, when the second key function undoes the first on the
  keys of the object and leaves them alone itself: every key is back, with its value
  walked twice.
\<close>

lemma for_in_twice:
  assumes d: "distinct (map fst ps)"
    and h: "\<forall>k \<in> fst ` set ps. g k = k \<and> g (f k) = k"
  shows "map_of (for_in g depth (map fst (for_in f depth (map fst ps) ps))
                   (for_in f depth (map fst ps) ps))
         = map_option (\<lambda>v. rewrite g (rewrite f v depth) depth) \<circ> map_of ps"
    and "distinct (map fst (for_in g depth (map fst (for_in f depth (map fst ps) ps))
                   (for_in f depth (map fst ps) ps)))"
proof -
  let ?K = "fst ` set ps"
  let ?R1 = "for_in f depth (map fst ps) ps"
  let ?R2 = "for_in g depth (map fst ?R1) ?R1"
  have K: "set (map fst ps) = ?K" "dom (map_of ps) = ?K" by (simp_all add: keys_dom)
  have gf: "g (f k) = k" and gk: "g k = k" if "k \<in> ?K" for k using h that by blast+
  have inj1: "inj_on f (set (map fst ps))"
    unfolding K by (rule inj_on_inverseI[where g = g]) (rule gf)
  have nc1: "\<forall>k \<in> set (map fst ps). f k \<in> dom (map_of ps) \<longrightarrow> f k = k"
  proof (intro ballI impI)
    fix k assume k: "k \<in> set (map fst ps)" and m: "f k \<in> dom (map_of ps)"
    have "g (f k) = f k" using gk m K by simp
    moreover have "g (f k) = k" using gf k K by simp
    ultimately show "f k = k" by simp
  qed
  have p1: "\<forall>k \<in> ?K. map_of ?R1 (f k) = map_option (\<lambda>v. rewrite f v depth) (map_of ps k)"
    and p1': "\<forall>k'. k' \<notin> f ` ?K \<longrightarrow> map_of ?R1 k' = None"
  proof -
    have a: "(\<forall>k \<in> set (map fst ps). map_of ?R1 (f k)
                          = map_option (\<lambda>v. rewrite f v depth) (map_of ps k))
       \<and> (\<forall>k'. k' \<notin> f ` set (map fst ps) \<longrightarrow>
              map_of ?R1 k' = (if k' \<in> set (map fst ps) then None else map_of ps k'))"
      using d inj1 nc1 K by (intro for_in_map) simp_all
    show "\<forall>k \<in> ?K. map_of ?R1 (f k) = map_option (\<lambda>v. rewrite f v depth) (map_of ps k)"
      using a K by simp
    show "\<forall>k'. k' \<notin> f ` ?K \<longrightarrow> map_of ?R1 k' = None"
    proof (intro allI impI)
      fix k' assume n: "k' \<notin> f ` ?K"
      have "map_of ?R1 k' = (if k' \<in> ?K then None else map_of ps k')"
        using a n K by simp
      moreover have "map_of ps k' = None" if "k' \<notin> ?K" using that by (simp add: map_of_eq_None_iff)
      ultimately show "map_of ?R1 k' = None" by simp
    qed
  qed
  have dom1: "dom (map_of ?R1) = f ` ?K"
  proof
    show "dom (map_of ?R1) \<subseteq> f ` ?K"
    proof
      fix x assume x: "x \<in> dom (map_of ?R1)"
      show "x \<in> f ` ?K"
      proof (rule ccontr)
        assume "x \<notin> f ` ?K"
        then have "map_of ?R1 x = None" using p1' by simp
        then show False using x by (simp add: domIff)
      qed
    qed
    show "f ` ?K \<subseteq> dom (map_of ?R1)"
    proof
      fix k' assume "k' \<in> f ` ?K"
      then obtain k where k: "k \<in> ?K" and e: "k' = f k" by auto
      then have "map_of ps k \<noteq> None" by (simp add: map_of_eq_None_iff)
      then show "k' \<in> dom (map_of ?R1)" using p1 k e by (auto simp: domIff)
    qed
  qed
  have d1: "distinct (map fst ?R1)" using d by (rule for_in_distinct)
  have K1: "set (map fst ?R1) = f ` ?K" using dom1 by (simp add: keys_dom)
  have inj2: "inj_on g (set (map fst ?R1))"
    unfolding K1
  proof (rule inj_onI)
    fix x y assume "x \<in> f ` ?K" "y \<in> f ` ?K" "g x = g y"
    then obtain a b where "a \<in> ?K" "x = f a" "b \<in> ?K" "y = f b" by auto
    then show "x = y" using \<open>g x = g y\<close> gf by simp
  qed
  have nc2: "\<forall>k' \<in> set (map fst ?R1). g k' \<in> dom (map_of ?R1) \<longrightarrow> g k' = k'"
  proof (intro ballI impI)
    fix k' assume k': "k' \<in> set (map fst ?R1)" and m: "g k' \<in> dom (map_of ?R1)"
    obtain k where k: "k \<in> ?K" and e: "k' = f k" using k' K1 by auto
    have gk': "g k' = k" using gf k e by simp
    then obtain j where j: "j \<in> ?K" and ej: "k = f j" using m dom1 by auto
    have "g k = j" using gf j ej by simp
    then have "j = k" using gk k by simp
    then show "g k' = k'" using gk' ej e by simp
  qed
  have q: "(\<forall>k' \<in> set (map fst ?R1). map_of ?R2 (g k')
                          = map_option (\<lambda>v. rewrite g v depth) (map_of ?R1 k'))
       \<and> (\<forall>k. k \<notin> g ` set (map fst ?R1) \<longrightarrow>
              map_of ?R2 k = (if k \<in> set (map fst ?R1) then None else map_of ?R1 k))"
    using d1 inj2 nc2 by (intro for_in_map) (simp_all add: keys_dom[symmetric])
  have gimg: "g ` set (map fst ?R1) = ?K"
  proof -
    have "g ` f ` ?K = (\<lambda>k. g (f k)) ` ?K" by (simp add: image_image)
    also have "\<dots> = (\<lambda>k. k) ` ?K" by (rule image_cong) (simp_all add: gf)
    finally have "g ` f ` ?K = ?K" by simp
    then show ?thesis using K1 by simp
  qed
  have "map_of ?R2 k = map_option (\<lambda>v. rewrite g (rewrite f v depth) depth) (map_of ps k)" for k
  proof (cases "k \<in> ?K")
    case True
    then have fk: "f k \<in> set (map fst ?R1)" using K1 by simp
    have "map_of ?R2 (g (f k)) = map_option (\<lambda>v. rewrite g v depth) (map_of ?R1 (f k))"
      using q fk by blast
    then show ?thesis using p1 True gf[OF True] by (simp add: option.map_comp comp_def)
  next
    case False
    then have n: "k \<notin> g ` set (map fst ?R1)" using gimg by simp
    have "map_of ?R2 k = (if k \<in> set (map fst ?R1) then None else map_of ?R1 k)"
      using q n by blast
    moreover have "map_of ?R1 k = None" if "k \<notin> set (map fst ?R1)"
      using that by (simp add: map_of_eq_None_iff)
    moreover have "map_of ps k = None" using False by (simp add: map_of_eq_None_iff)
    ultimately show ?thesis by simp
  qed
  then show "map_of ?R2 = map_option (\<lambda>v. rewrite g (rewrite f v depth) depth) \<circ> map_of ps"
    by (simp add: fun_eq_iff)
  show "distinct (map fst ?R2)" using d1 by (rule for_in_distinct)
qed

text \<open>
  Renaming with \<open>f\<close> and then with \<open>g\<close> gives back a value deep-equal to the input, when
  \<open>g\<close> leaves every key of the input alone and undoes \<open>f\<close> on it. Both passes stop at the
  same objects, so keys beyond the budget are left as they are by both.
\<close>

lemma rewrite_round_trip:
  "well_formed x \<Longrightarrow> all_keys (\<lambda>k. g k = k \<and> g (f k) = k) x \<Longrightarrow>
   deep_eq (rewrite g (rewrite f x depth) depth) x"
proof (induction x arbitrary: depth)
  case (JArr xs)
  show ?case
  proof (cases "depth - 1 < 0")
    case True
    then show ?thesis using deep_eq_refl[OF JArr.prems(1)] by simp
  next
    case False
    have "deep_eq (rewrite g (rewrite f x 10) 10) x" if "x \<in> set xs" for x
      using JArr.IH[OF that] JArr.prems that by (simp add: list_all_iff)
    then show ?thesis using False by (simp add: list_all2_map1 list_all2_same)
  qed
next
  case (JObj ps)
  show ?case
  proof (cases "depth - 1 < 0")
    case True
    then show ?thesis using deep_eq_refl[OF JObj.prems(1)] by simp
  next
    case False
    let ?d = "depth - 1"
    let ?R1 = "for_in f ?d (map fst ps) ps"
    let ?R2 = "for_in g ?d (map fst ?R1) ?R1"
    have d: "distinct (map fst ps)" using JObj.prems(1) by simp
    have h: "\<forall>k \<in> fst ` set ps. g k = k \<and> g (f k) = k"
      using JObj.prems(2) by (auto simp: list_all_iff)
    have m2: "map_of ?R2 = map_option (\<lambda>v. rewrite g (rewrite f v ?d) ?d) \<circ> map_of ps"
      and d2: "distinct (map fst ?R2)"
      using for_in_twice[OF d h] by simp_all
    have e1: "case map_of ps (fst p) of None \<Rightarrow> False | Some w \<Rightarrow> deep_eq (snd p) w"
      if p: "p \<in> set ?R2" for p
    proof -
      have "map_of ?R2 (fst p) = Some (snd p)" using d2 p by (cases p) simp
      then obtain v where v: "map_of ps (fst p) = Some v"
        and sp: "snd p = rewrite g (rewrite f v ?d) ?d"
        using m2 by auto
      have mem: "(fst p, v) \<in> set ps" using v by (rule map_of_SomeD)
      have "well_formed v" and "all_keys (\<lambda>k. g k = k \<and> g (f k) = k) v"
        using JObj.prems mem by (auto simp: list_all_iff)
      then have "deep_eq (rewrite g (rewrite f v ?d) ?d) v"
        using JObj.IH[of "(fst p, v)" v] mem by simp
      then show ?thesis using v sp by simp
    qed
    have e2: "map_of ?R2 (fst q) \<noteq> None" if q: "q \<in> set ps" for q
    proof -
      have "map_of ps (fst q) \<noteq> None" using q by (simp add: map_of_eq_None_iff)
      then show ?thesis using m2 by auto
    qed
    show ?thesis using False e1 e2 by (simp add: list_all_iff)
  qed
qed simp_all

text \<open>
  C3, as the claim states it, fails: it asks both round trips of every input in a single
  convention. The input \<^verbatim>\<open>{user_id: 5}\<close> is all snake_case, and its keys convert without
  loss, but \<^verbatim>\<open>humpToSnake\<close> leaves it alone and \<^verbatim>\<open>snakeToHump\<close> then renames it, so
  \<^verbatim>\<open>snakeToHump(humpToSnake(x))\<close> is \<^verbatim>\<open>{userId: 5}\<close>, not deep-equal to \<^verbatim>\<open>x\<close>.
\<close>

theorem round_trip_both_ways_counterexample:
  "well_formed (JObj [(''user_id'', JNum 5)])
   \<and> all_keys (\<lambda>k. snakeCase lodash_model k = k
                   \<and> snakeCase lodash_model (camelCase lodash_model k) = k)
        (JObj [(''user_id'', JNum 5)])
   \<and> snakeToHump lodash_model (humpToSnake lodash_model (JObj [(''user_id'', JNum 5)]) 10) 10
       = JObj [(''userId'', JNum 5)]
   \<and> \<not> deep_eq
         (snakeToHump lodash_model (humpToSnake lodash_model (JObj [(''user_id'', JNum 5)]) 10) 10)
         (JObj [(''user_id'', JNum 5)])"
  by code_simp

text \<open>
  C3, amended: each round trip holds for the inputs of the convention it returns to.
  For every well-formed input whose keys, at every depth, are camelCase keys that
  convert without loss (\<^verbatim>\<open>camelCase(k) = k\<close> and \<^verbatim>\<open>camelCase(snakeCase(k)) = k\<close>),
  \<^verbatim>\<open>snakeToHump(humpToSnake(x))\<close> with the default depth is deep-equal to \<^verbatim>\<open>x\<close>; for every
  well-formed input whose keys are snake_case keys that convert without loss,
  \<^verbatim>\<open>humpToSnake(snakeToHump(x))\<close> is deep-equal to \<^verbatim>\<open>x\<close>.
\<close>

theorem round_trip_within_convention:
  assumes "well_formed x"
  shows "(all_keys (\<lambda>k. camelCase L k = k \<and> camelCase L (snakeCase L k) = k) x \<longrightarrow>
            deep_eq (snakeToHump L (humpToSnake L x 10) 10) x)
       \<and> (all_keys (\<lambda>k. snakeCase L k = k \<and> snakeCase L (camelCase L k) = k) x \<longrightarrow>
            deep_eq (humpToSnake L (snakeToHump L x 10) 10) x)"
  using assms
  by (simp add: snakeToHump_def humpToSnake_def priv_snakeToHump_def priv_humpToSnake_def
        rewrite_round_trip)

theorem round_trip_within_convention_witness:
  "deep_eq
     (snakeToHump lodash_model
        (humpToSnake lodash_model
           (JObj [(''userId'', JNum 5), (''name'', JStr ''a''),
                  (''tags'', JArr [JObj [(''tagName'', JStr ''b'')]])]) 10) 10)
     (JObj [(''userId'', JNum 5), (''name'', JStr ''a''),
            (''tags'', JArr [JObj [(''tagName'', JStr ''b'')]])])
   \<and> humpToSnake lodash_model
        (JObj [(''userId'', JNum 5), (''name'', JStr ''a''),
               (''tags'', JArr [JObj [(''tagName'', JStr ''b'')]])]) 10
     = JObj [(''name'', JStr ''a''), (''tags'', JArr [JObj [(''tag_name'', JStr ''b'')]]),
             (''user_id'', JNum 5)]
   \<and> deep_eq
     (humpToSnake lodash_model (snakeToHump lodash_model (JObj [(''user_id'', JNum 5)]) 10) 10)
     (JObj [(''user_id'', JNum 5)])"
proof -
  let ?x = "JObj [(''userId'', JNum 5), (''name'', JStr ''a''),
                  (''tags'', JArr [JObj [(''tagName'', JStr ''b'')]])]"
  let ?y = "JObj [(''user_id'', JNum 5)]"
  have wx: "well_formed ?x" by code_simp
  have wy: "well_formed ?y" by code_simp
  have cx: "all_keys (\<lambda>k. camelCase lodash_model k = k
                        \<and> camelCase lodash_model (snakeCase lodash_model k) = k) ?x"
    by code_simp
  have sy: "all_keys (\<lambda>k. snakeCase lodash_model k = k
                        \<and> snakeCase lodash_model (camelCase lodash_model k) = k) ?y"
    by code_simp
  have mid: "humpToSnake lodash_model ?x 10
     = JObj [(''name'', JStr ''a''), (''tags'', JArr [JObj [(''tag_name'', JStr ''b'')]]),
             (''user_id'', JNum 5)]"
    by code_simp
  show ?thesis
    using cx sy mid
      round_trip_within_convention[OF wx, of lodash_model]
      round_trip_within_convention[OF wy, of lodash_model]
    by blast
qed

section \<open>The transformer on the store: theorems\<close>

lemma fresh_val_length: "length h' = length h \<Longrightarrow> fresh_val m h' v = fresh_val m h v"
  by (cases v) (simp_all add: fresh_val_def)

lemma closed_above_iff:
  "closed_above m h =
     (\<forall>a. m \<le> a \<and> a < length h \<longrightarrow> (\<forall>v \<in> set (node_vals (h ! a)). fresh_val m h v))"
proof
  assume c: "closed_above m h"
  show "\<forall>a. m \<le> a \<and> a < length h \<longrightarrow> (\<forall>v \<in> set (node_vals (h ! a)). fresh_val m h v)"
  proof (intro allI impI)
    fix a
    assume a: "m \<le> a \<and> a < length h"
    then have "h ! a = drop m h ! (a - m)" by simp
    moreover have "a - m < length (drop m h)" using a by auto
    ultimately have "h ! a \<in> set (drop m h)" by (metis nth_mem)
    then show "\<forall>v \<in> set (node_vals (h ! a)). fresh_val m h v"
      using c by (simp add: closed_above_def list_all_iff)
  qed
next
  assume r: "\<forall>a. m \<le> a \<and> a < length h \<longrightarrow> (\<forall>v \<in> set (node_vals (h ! a)). fresh_val m h v)"
  have "\<forall>v \<in> set (node_vals node). fresh_val m h v" if "node \<in> set (drop m h)" for node
  proof -
    from that obtain i where i: "i < length (drop m h)" "drop m h ! i = node"
      by (auto simp: in_set_conv_nth)
    then have "h ! (m + i) = node" "m \<le> m + i" "m + i < length h" by auto
    then show ?thesis using r by blast
  qed
  then show "closed_above m h" by (simp add: closed_above_def list_all_iff)
qed

lemma h_get_cases: "h_get ps k = HUndefined \<or> h_get ps k \<in> snd ` set ps"
proof (cases "map_of ps k")
  case None
  then show ?thesis by (simp add: h_get_def)
next
  case (Some v)
  then have "(k, v) \<in> set ps" by (rule map_of_SomeD)
  then have "snd (k, v) \<in> snd ` set ps" by (rule imageI)
  then show ?thesis using Some by (simp add: h_get_def)
qed

lemma set_alist_update: "set (AList.update k v ps) \<subseteq> insert (k, v) (set ps)"
  by (induction ps) auto

lemma set_alist_delete: "set (AList.delete k ps) \<subseteq> set ps"
  by (induction ps) auto

lemma h_get_present:
  assumes "k \<in> fst ` set ps"
  shows "h_get ps k \<in> snd ` set ps"
proof (cases "map_of ps k")
  case None
  then show ?thesis using assms by (simp add: map_of_eq_None_iff)
next
  case (Some v)
  then have "(k, v) \<in> set ps" by (rule map_of_SomeD)
  then have "snd (k, v) \<in> snd ` set ps" by (rule imageI)
  then show ?thesis using Some by (simp add: h_get_def)
qed

lemma vals_h_rename_key:
  assumes "key \<in> fst ` set ps"
  shows "snd ` set (h_rename_key f key ps) \<subseteq> snd ` set ps"
proof (cases "key = f key")
  case True
  then show ?thesis by (simp add: h_rename_key_def)
next
  case False
  let ?v = "h_get ps key"
  have "set (AList.delete key (AList.update (f key) ?v ps)) \<subseteq> set (AList.update (f key) ?v ps)"
    by (rule set_alist_delete)
  also have "\<dots> \<subseteq> insert (f key, ?v) (set ps)"
    by (rule set_alist_update)
  finally have s: "set (h_rename_key f key ps) \<subseteq> insert (f key, ?v) (set ps)"
    using False by (simp add: h_rename_key_def Let_def)
  have "snd ` set (h_rename_key f key ps) \<subseteq> snd ` insert (f key, ?v) (set ps)"
    using s by (rule image_mono)
  also have "\<dots> = insert ?v (snd ` set ps)" by simp
  also have "\<dots> = snd ` set ps" using h_get_present[OF assms] by (simp add: insert_absorb)
  finally show ?thesis .
qed

lemma closed_above_write:
  assumes c: "closed_above m h" and a: "m \<le> a" "a < length h"
    and ha: "h ! a = HObject ps" and sub: "snd ` set ps1 \<subseteq> snd ` set ps"
  shows "closed_above m (h[a := HObject ps1])"
  unfolding closed_above_iff
proof (intro allI impI ballI)
  fix b v
  assume b: "m \<le> b \<and> b < length (h[a := HObject ps1])"
    and v: "v \<in> set (node_vals (h[a := HObject ps1] ! b))"
  have "fresh_val m h v"
  proof (cases "b = a")
    case True
    then have "v \<in> snd ` set ps1" using v a by simp
    then have "v \<in> set (node_vals (h ! a))" using sub ha by auto
    then show ?thesis using c a unfolding closed_above_iff by blast
  next
    case False
    then have "v \<in> set (node_vals (h ! b))" using v by simp
    then show ?thesis using c b unfolding closed_above_iff by simp
  qed
  then show "fresh_val m (h[a := HObject ps1]) v"
    using fresh_val_length[of "h[a := HObject ps1]" h m v] by simp
qed

text \<open>
  Whatever the run does, and whether or not it returns: started on a value that is a
  scalar or a node above \<open>m\<close>, in a store whose nodes above \<open>m\<close> refer above \<open>m\<close> only, it
  leaves every node below \<open>m\<close> as it was.
\<close>

lemma rewrite_store_frame:
  "rewrite_store n f target depth h = (ok, h') \<Longrightarrow> fresh_val m h target \<Longrightarrow> closed_above m h \<Longrightarrow>
     length h' = length h \<and> take m h' = take m h \<and> closed_above m h'"
  "for_each_store n f items h = (ok, h') \<Longrightarrow> list_all (fresh_val m h) items \<Longrightarrow> closed_above m h \<Longrightarrow>
     length h' = length h \<and> take m h' = take m h \<and> closed_above m h'"
  "for_in_store n f a depth' keys h = (ok, h') \<Longrightarrow> m \<le> a \<Longrightarrow> a < length h \<Longrightarrow> closed_above m h \<Longrightarrow>
     length h' = length h \<and> take m h' = take m h \<and> closed_above m h'"
proof (induction n f target depth h and n f items h and n f a depth' keys h
        arbitrary: ok h' and ok h' and ok h'
        rule: rewrite_store_for_each_store_for_in_store.induct)
  case (1 f target depth h)
  then show ?case by simp
next
  case (2 n f target depth h)
  note run = "2.prems"(1) and fr = "2.prems"(2) and cl = "2.prems"(3)
  show ?case
  proof (cases "depth - 1 < 0")
    case True
    then show ?thesis using run cl by simp
  next
    case nd: False
    show ?thesis
    proof (cases target)
      case (HRef a)
      show ?thesis
      proof (cases "a < length h")
        case False
        then show ?thesis using run cl nd HRef by simp
      next
        case inb: True
        have am: "m \<le> a" using fr HRef by (simp add: fresh_val_def)
        show ?thesis
        proof (cases "h ! a")
          case (HObject ps)
          then have "for_in_store n f a (depth - 1) (map fst ps) h = (ok, h')"
            using run nd HRef inb by simp
          then show ?thesis using "2.IH"(1)[OF nd HRef inb HObject] am inb cl by simp
        next
          case (HArray items)
          then have run': "for_each_store n f items h = (ok, h')"
            using run nd HRef inb by simp
          have "list_all (fresh_val m h) items"
            using cl am inb HArray unfolding closed_above_iff by (auto simp: list_all_iff)
          then show ?thesis using "2.IH"(2)[OF nd HRef inb HArray run'] cl by simp
        qed
      qed
    qed (use run cl nd in simp_all)
  qed
next
  case (3 n f h)
  then show ?case by simp
next
  case (4 n f item items h)
  note run = "4.prems"(1) and cl = "4.prems"(3)
  obtain ok1 h1 where r1: "rewrite_store n f item 10 h = (ok1, h1)" by fastforce
  have fr: "fresh_val m h item" and rest: "list_all (fresh_val m h) items"
    using "4.prems"(2) by simp_all
  have s1: "length h1 = length h \<and> take m h1 = take m h \<and> closed_above m h1"
    using "4.IH"(1)[OF r1 fr cl] .
  show ?case
  proof (cases ok1)
    case False
    then show ?thesis using run r1 s1 by simp
  next
    case True
    then have run': "for_each_store n f items h1 = (ok, h')" using run r1 by simp
    have "fresh_val m h1 v = fresh_val m h v" for v
      using s1 fresh_val_length[of h1 h m v] by simp
    then have "list_all (fresh_val m h1) items"
      using rest by (simp add: list_all_iff)
    moreover have "ok1 = True" using True by simp
    ultimately show ?thesis using "4.IH"(2)[OF r1[symmetric] _ run'] s1 by simp
  qed
next
  case (5 n f a depth h)
  then show ?case by simp
next
  case (6 n f a depth key keys h)
  note run = "6.prems"(1) and am = "6.prems"(2) and inb = "6.prems"(3) and cl = "6.prems"(4)
  show ?case
  proof (cases "h ! a")
    case (HArray items)
    then show ?thesis using run cl by simp
  next
    case (HObject ps)
    show ?thesis
    proof (cases "key \<in> fst ` set ps")
      case False
      then have "for_in_store n f a depth keys h = (ok, h')" using run HObject by simp
      then show ?thesis using "6.IH"(1)[OF HObject False] am inb cl by simp
    next
      case present: True
      then have present': "\<not> key \<notin> fst ` set ps" by simp
      define ps1 where "ps1 = h_rename_key f key ps"
      define h1 where "h1 = h[a := HObject ps1]"
      have sub: "snd ` set ps1 \<subseteq> snd ` set ps"
        unfolding ps1_def by (rule vals_h_rename_key[OF present])
      have c1: "closed_above m h1"
        unfolding h1_def by (rule closed_above_write[OF cl am inb HObject sub])
      have l1: "length h1 = length h" by (simp add: h1_def)
      have t1: "take m h1 = take m h" using am by (simp add: h1_def)
      have a1: "a < length h1" using inb l1 by simp
      have fch: "fresh_val m h1 (h_get ps1 (f key))"
      proof -
        have "h_get ps1 (f key) = HUndefined \<or> h_get ps1 (f key) \<in> snd ` set ps1"
          by (rule h_get_cases)
        then show ?thesis
        proof
          assume "h_get ps1 (f key) = HUndefined"
          then show ?thesis by (simp add: fresh_val_def)
        next
          assume "h_get ps1 (f key) \<in> snd ` set ps1"
          then have "h_get ps1 (f key) \<in> set (node_vals (h1 ! a))"
            using inb by (simp add: h1_def)
          then show ?thesis using c1 am a1 unfolding closed_above_iff by blast
        qed
      qed
      show ?thesis
      proof (cases "h_typeof_object (h_get ps1 (f key))")
        case False
        then have run': "for_in_store n f a depth keys h1 = (ok, h')"
          using run HObject present by (simp add: ps1_def h1_def Let_def)
        show ?thesis
          using "6.IH"(4)[OF HObject present' ps1_def h1_def False run' am a1 c1] l1 t1 by simp
      next
        case tobj: True
        obtain ok2 h2 where r2: "rewrite_store n f (h_get ps1 (f key)) depth h1 = (ok2, h2)"
          by fastforce
        have s2: "length h2 = length h1 \<and> take m h2 = take m h1 \<and> closed_above m h2"
          using "6.IH"(2)[OF HObject present' ps1_def h1_def tobj r2 fch c1] .
        show ?thesis
        proof (cases ok2)
          case False
          then have "(ok, h') = (False, h2)"
            using run HObject present tobj r2 by (simp add: ps1_def h1_def Let_def)
          then show ?thesis using s2 l1 t1 by simp
        next
          case True
          then have run': "for_in_store n f a depth keys h2 = (ok, h')"
            using run HObject present tobj r2 by (simp add: ps1_def h1_def Let_def)
          have a2: "a < length h2" using a1 s2 by simp
          have c2: "closed_above m h2" using s2 by simp
          have ok2: "ok2 = True" using True by simp
          show ?thesis
            using "6.IH"(3)[OF HObject present' ps1_def h1_def tobj r2[symmetric] ok2 run' am a2 c2]
              s2 l1 t1 by simp
        qed
      qed
    qed
  qed
qed

text \<open>
  C5. The caller's objects are the nodes of the store \<open>h\<close> before the call. Whenever
  \<^verbatim>\<open>_.cloneDeep\<close> hands back a deep copy (\<open>deep_copy\<close>: it wrote to no existing node, and
  the copy shares no node with what existed), every node that existed before a call of
  \<^verbatim>\<open>snakeToHump\<close> or \<^verbatim>\<open>humpToSnake\<close> is after the call what it was before, for every
  input, every depth, and every bound on the nesting of calls, also when the call does
  not return. In the instance below the theorem the copy is renamed, the two objects of
  the caller are as they were, and the object returned is the one the value model gives.
\<close>

theorem transformers_leave_input_unchanged:
  assumes "cloneDeep L h target = (h1, temp)" and "deep_copy h h1 temp"
  shows "take (length h) (fst (snd (snakeToHump_store n L h target depth))) = h
         \<and> take (length h) (fst (snd (humpToSnake_store n L h target depth))) = h"
proof -
  have old: "take (length h) h1 = h" and cl: "closed_above (length h) h1"
    and fr: "fresh_val (length h) h1 temp"
    using assms(2) by (simp_all add: deep_copy_def)
  obtain ok1 h2 where r1: "rewrite_store n (camelCase L) temp depth h1 = (ok1, h2)"
    by fastforce
  obtain ok2 h3 where r2: "rewrite_store n (snakeCase L) temp depth h1 = (ok2, h3)"
    by fastforce
  have "take (length h) h2 = h" using rewrite_store_frame(1)[OF r1 fr cl] old by simp
  moreover have "take (length h) h3 = h" using rewrite_store_frame(1)[OF r2 fr cl] old by simp
  ultimately show ?thesis
    using assms(1) r1 r2 by (simp add: snakeToHump_store_def humpToSnake_store_def)
qed

theorem transformers_leave_input_unchanged_witness:
  "deep_copy [HObject [(''user_id'', HNum 5), (''a'', HRef 1)], HObject [(''b_c'', HNull)]]
     [HObject [(''user_id'', HNum 5), (''a'', HRef 1)], HObject [(''b_c'', HNull)],
      HObject [(''b_c'', HNull)], HObject [(''user_id'', HNum 5), (''a'', HRef 2)]] (HRef 3)
   \<and> snakeToHump_store 20 lodash_model
       [HObject [(''user_id'', HNum 5), (''a'', HRef 1)], HObject [(''b_c'', HNull)]] (HRef 0) 10
     = (True,
        [HObject [(''user_id'', HNum 5), (''a'', HRef 1)], HObject [(''b_c'', HNull)],
         HObject [(''bC'', HNull)], HObject [(''a'', HRef 2), (''userId'', HNum 5)]],
        HRef 3)
   \<and> take 2 (fst (snd (snakeToHump_store 20 lodash_model
       [HObject [(''user_id'', HNum 5), (''a'', HRef 1)], HObject [(''b_c'', HNull)]] (HRef 0) 10)))
     = [HObject [(''user_id'', HNum 5), (''a'', HRef 1)], HObject [(''b_c'', HNull)]]
   \<and> snakeToHump lodash_model (JObj [(''user_id'', JNum 5), (''a'', JObj [(''b_c'', JNull)])]) 10
     = JObj [(''a'', JObj [(''bC'', JNull)]), (''userId'', JNum 5)]"
proof -
  let ?h = "[HObject [(''user_id'', HNum 5), (''a'', HRef 1)], HObject [(''b_c'', HNull)]]"
  let ?h1 = "[HObject [(''user_id'', HNum 5), (''a'', HRef 1)], HObject [(''b_c'', HNull)],
      HObject [(''b_c'', HNull)], HObject [(''user_id'', HNum 5), (''a'', HRef 2)]]"
  have c: "cloneDeep lodash_model ?h (HRef 0) = (?h1, HRef 3)"
    by code_simp
  have d: "deep_copy ?h ?h1 (HRef 3)"
    by code_simp
  have r: "snakeToHump_store 20 lodash_model ?h (HRef 0) 10
     = (True,
        [HObject [(''user_id'', HNum 5), (''a'', HRef 1)], HObject [(''b_c'', HNull)],
         HObject [(''bC'', HNull)], HObject [(''a'', HRef 2), (''userId'', HNum 5)]],
        HRef 3)"
    by code_simp
  have v: "snakeToHump lodash_model (JObj [(''user_id'', JNum 5), (''a'', JObj [(''b_c'', JNull)])]) 10
     = JObj [(''a'', JObj [(''bC'', JNull)]), (''userId'', JNum 5)]"
    by code_simp
  show ?thesis
    using d r v transformers_leave_input_unchanged[OF c d, of 20 10] by simp
qed

end
